theory Spec2Isabelle
  imports Main "HOL-Library.AList" "HOL-Library.Word"
begin

section \<open>JavaScript strings\<close>

text \<open>
  A JavaScript string is modelled as a \<open>string\<close> (a list of characters). The two
  quote characters that the sources use inside patterns and replacements are
  abbreviated, because they cannot be written inside a string literal.
\<close>

abbreviation dq :: char where "dq \<equiv> CHR 0x22"
abbreviation sq :: char where "sq \<equiv> CHR 0x27"

text \<open>\<open>s.startsWith(p)\<close>, \<open>s.endsWith(p)\<close> and \<open>s.includes(p)\<close>.\<close>

fun startsWith :: "string \<Rightarrow> string \<Rightarrow> bool" where
  "startsWith s [] = True"
| "startsWith [] (p # ps) = False"
| "startsWith (c # s) (p # ps) = (c = p \<and> startsWith s ps)"

definition endsWith :: "string \<Rightarrow> string \<Rightarrow> bool" where
  "endsWith s p = startsWith (rev s) (rev p)"

fun str_includes :: "string \<Rightarrow> string \<Rightarrow> bool" where
  "str_includes [] d = (d = [])"
| "str_includes (c # s) d = (startsWith (c # s) d \<or> str_includes s d)"

section \<open>The URL parser of the platform\<close>

text \<open>
  \<open>new URL(s)\<close> is Node's WHATWG URL parser, which is not code of this repository. The
  functions below that call it take it as the parameter \<open>new_URL\<close>: \<open>None\<close> is the
  \<open>TypeError\<close> it throws on a string that does not parse, \<open>Some u\<close> carries the two
  getters the sources read.
\<close>

record url =
  hostname :: string
  pathname :: string

text \<open>
  For evaluating the functions on concrete inputs, \<open>http_url\<close> is a stand-in for the
  parser on a conservative fragment: printable ASCII without spaces, scheme
  \<open>http://\<close> or \<open>https://\<close>, a host of lower-case letters, digits, \<open>-\<close> and \<open>.\<close>
  whose first and whose last label start with a letter, and a path of letters, digits
  and \<open>- _ . ~ /\<close> without \<open>.\<close> and \<open>..\<close> segments. On this fragment the parser only
  splits the string (an empty path reads as \<open>/\<close>). Everything else is answered with
  \<open>None\<close>, so outside the fragment \<open>http_url\<close> says nothing about Node; it is used at
  concrete inputs only.
\<close>

fun strip_prefix :: "string \<Rightarrow> string \<Rightarrow> string option" where
  "strip_prefix [] s = Some s"
| "strip_prefix (p # ps) [] = None"
| "strip_prefix (p # ps) (c # s) = (if p = c then strip_prefix ps s else None)"

fun split_on :: "char \<Rightarrow> string \<Rightarrow> string list" where
  "split_on sep [] = [[]]"
| "split_on sep (c # s) =
     (if c = sep then [] # split_on sep s
      else (case split_on sep s of [] \<Rightarrow> [[c]] | x # xs \<Rightarrow> (c # x) # xs))"

definition lower_alpha :: "char \<Rightarrow> bool" where
  "lower_alpha c = (c \<in> set ''abcdefghijklmnopqrstuvwxyz'')"

definition host_char :: "char \<Rightarrow> bool" where
  "host_char c = (lower_alpha c \<or> c \<in> set ''0123456789-.'')"

definition path_char :: "char \<Rightarrow> bool" where
  "path_char c = (lower_alpha c \<or> c \<in> set ''ABCDEFGHIJKLMNOPQRSTUVWXYZ0123456789-_.~/'')"

definition printable :: "char \<Rightarrow> bool" where
  "printable c = (0x21 \<le> (of_char c :: nat) \<and> (of_char c :: nat) \<le> 0x7E)"

definition http_url :: "string \<Rightarrow> url option" where
  "http_url s =
     (case (case strip_prefix ''https://'' s of
              Some r \<Rightarrow> Some r
            | None \<Rightarrow> strip_prefix ''http://'' s) of
        None \<Rightarrow> None
      | Some r \<Rightarrow>
          let h = takeWhile (\<lambda>c. c \<notin> set ''/?#'') r;
              p = takeWhile (\<lambda>c. c \<notin> set ''?#'') (dropWhile (\<lambda>c. c \<notin> set ''/?#'') r)
          in if list_all printable s \<and> list_all host_char h \<and> list_all path_char p
                \<and> list_all (\<lambda>l. l \<noteq> [] \<and> lower_alpha (hd l)) [hd (split_on CHR ''.'' h), last (split_on CHR ''.'' h)]
                \<and> \<not> str_includes h ''xn--''
                \<and> list_all (\<lambda>seg. seg \<noteq> ''.'' \<and> seg \<noteq> ''..'') (split_on CHR ''/'' p)
             then Some \<lparr>hostname = h, pathname = (if p = [] then ''/'' else p)\<rparr>
             else None)"

section \<open>The domain filter\<close>

text \<open>
  \<open>crawler.js\<close>: the configuration object (the fields the modelled functions read) and
  \<open>isAllowedDomain\<close>. \<open>Array.prototype.some\<close> is \<open>list_ex\<close>; the \<open>catch\<close> branch is the
  \<open>None\<close> case.
\<close>

record crawler_config =
  startUrl :: string
  allowedDomains :: "string list"
  outputDir :: string

definition config :: crawler_config where
  "config = \<lparr>startUrl = ''https://apply.agency'',
             allowedDomains = [''apply.agency'', ''www.apply.agency'', ''webflow.com'',
               ''webflow.io'', ''d3e54v103j8qbb.cloudfront.net'', ''uploads-ssl.webflow.com'',
               ''assets.website-files.com''],
             outputDir = ''./downloaded_site''\<rparr>"

definition isAllowedDomain :: "(string \<Rightarrow> url option) \<Rightarrow> crawler_config \<Rightarrow> string \<Rightarrow> bool" where
  "isAllowedDomain new_URL cfg u =
     (case new_URL u of
        None \<Rightarrow> False
      | Some parsed \<Rightarrow> list_ex (\<lambda>domain. str_includes (hostname parsed) domain) (allowedDomains cfg))"

text \<open>\<open>webflow-crawler.js\<close>: the same filter over the constant \<open>WEBFLOW_DOMAINS\<close>.\<close>

definition WEBFLOW_DOMAINS :: "string list" where
  "WEBFLOW_DOMAINS = [''webflow.com'', ''cdn.prod.website-files.com'',
     ''assets.website-files.com'', ''uploads-ssl.webflow.com'',
     ''assets-global.website-files.com'']"

definition isWebflowAsset :: "(string \<Rightarrow> url option) \<Rightarrow> string \<Rightarrow> bool" where
  "isWebflowAsset new_URL u =
     (case new_URL u of
        None \<Rightarrow> False
      | Some parsed \<Rightarrow> list_ex (\<lambda>domain. str_includes (hostname parsed) domain) WEBFLOW_DOMAINS)"

section \<open>Node's path module and the MD5 digest\<close>

text \<open>
  \<open>path.extname\<close>, \<open>path.normalize\<close> and \<open>path.join\<close> are Node's (POSIX flavour), not
  code of this repository; they are written out here after Node's documented
  behaviour. \<open>extname\<close> reads the last segment of the path, trailing slashes dropped;
  the extension runs from the last dot of that segment to its end, and is empty when
  there is no dot, when the only dot is the segment's first character, or when the
  segment is \<open>..\<close>.
\<close>

definition basename_part :: "string \<Rightarrow> string" where
  "basename_part p =
     rev (takeWhile (\<lambda>c. c \<noteq> CHR ''/'') (dropWhile (\<lambda>c. c = CHR ''/'') (rev p)))"

definition path_extname :: "string \<Rightarrow> string" where
  "path_extname p =
     (let b = basename_part p;
          after_dot = rev (takeWhile (\<lambda>c. c \<noteq> CHR ''.'') (rev b));
          upto_dot = rev (dropWhile (\<lambda>c. c \<noteq> CHR ''.'') (rev b))
      in if upto_dot = [] \<or> upto_dot = ''.'' \<or> b = ''..'' then []
         else CHR ''.'' # after_dot)"

fun join_with :: "string \<Rightarrow> string list \<Rightarrow> string" where
  "join_with sep [] = []"
| "join_with sep [x] = x"
| "join_with sep (x # y # ys) = x @ sep @ join_with sep (y # ys)"

text \<open>
  \<open>normalize_segments\<close> is \<open>normalizeString\<close>: empty and \<open>.\<close> segments vanish, \<open>..\<close>
  removes the segment before it, or stays when there is none and the path is
  relative (\<open>allowAboveRoot\<close>). The accumulator holds the kept segments, last first.
\<close>

fun normalize_segments :: "bool \<Rightarrow> string list \<Rightarrow> string list \<Rightarrow> string list" where
  "normalize_segments allowAboveRoot acc [] = rev acc"
| "normalize_segments allowAboveRoot acc (seg # segs) =
     (if seg = [] \<or> seg = ''.'' then normalize_segments allowAboveRoot acc segs
      else if seg = ''..'' then
        (case acc of
           [] \<Rightarrow> normalize_segments allowAboveRoot (if allowAboveRoot then [''..''] else []) segs
         | a # acc' \<Rightarrow>
             if a = ''..'' then normalize_segments allowAboveRoot (if allowAboveRoot then ''..'' # acc else acc) segs
             else normalize_segments allowAboveRoot acc' segs)
      else normalize_segments allowAboveRoot (seg # acc) segs)"

definition path_normalize :: "string \<Rightarrow> string" where
  "path_normalize p =
     (if p = [] then ''.''
      else let absolute = (hd p = CHR ''/'');
               trailing = (last p = CHR ''/'');
               q = join_with ''/'' (normalize_segments (\<not> absolute) [] (split_on CHR ''/'' p))
           in if q = [] then (if absolute then ''/'' else if trailing then ''./'' else ''.'')
              else (if absolute then ''/'' else []) @ q @ (if trailing then ''/'' else []))"

definition path_join :: "string \<Rightarrow> string \<Rightarrow> string" where
  "path_join a b =
     (let joined = (if a = [] then b else if b = [] then a else a @ ''/'' @ b)
      in if joined = [] then ''.'' else path_normalize joined)"

text \<open>
  \<open>createHash('md5').update(u).digest('hex')\<close>: the digest function is Node's and is
  the parameter \<open>md5\<close> (a 128-bit value) of the functions that hash; \<open>digest_hex\<close> is
  its rendering as 32 lower-case hexadecimal digits, most significant first.
\<close>

fun hex_digits :: "nat \<Rightarrow> nat \<Rightarrow> string" where
  "hex_digits 0 k = []"
| "hex_digits (Suc n) k = hex_digits n (k div 16) @ [''0123456789abcdef'' ! (k mod 16)]"

definition digest_hex :: "128 word \<Rightarrow> string" where
  "digest_hex w = hex_digits 32 (unat w)"

text \<open>
  A digest function for evaluating concrete runs. It is not MD5: it only stands in
  the parameter's place, so file names computed with it are not the real ones.
\<close>

definition toy_digest :: "string \<Rightarrow> 128 word" where
  "toy_digest s = of_nat (sum_list (map of_char s))"

section \<open>The outside world of a run\<close>

text \<open>
  What a run does to its surroundings is recorded as a trace of events, oldest first:
  network requests, files written, the random waits (with the bounds passed to
  \<open>randomDelay\<close>, in milliseconds) and the \<open>Processing:\<close> lines of the link-following
  crawler.
\<close>

datatype event =
    Fetch string
  | FileWritten string
  | Delay nat nat
  | Processing string

fun is_Fetch :: "event \<Rightarrow> bool" where
  "is_Fetch (Fetch u) = True"
| "is_Fetch e = False"

definition fetch_count :: "event list \<Rightarrow> nat" where
  "fetch_count tr = length (filter is_Fetch tr)"

text \<open>
  A JavaScript \<open>Set\<close> of strings is a list without repetitions in insertion order;
  \<open>has\<close> is membership and \<open>add\<close> appends an absent element. \<open>Array.from(new Set(xs))\<close>
  keeps first occurrences.
\<close>

definition set_add :: "string \<Rightarrow> string list \<Rightarrow> string list" where
  "set_add x xs = (if x \<in> set xs then xs else xs @ [x])"

definition array_from_set :: "string list \<Rightarrow> string list" where
  "array_from_set xs = foldl (\<lambda>acc x. set_add x acc) [] xs"

section \<open>webflow-crawler.js\<close>

text \<open>
  The fixed-list crawler. Its surroundings are the record \<open>wf_env\<close>:
  \<^item> \<open>wf_new_URL\<close> and \<open>wf_md5\<close>, the platform functions;
  \<^item> \<open>fetch_status n u\<close>, the answer to the \<open>n\<close>-th call of \<open>fetch\<close> of the run (counted
    from 0) when it asks for \<open>u\<close>: \<open>None\<close> when the call rejects, otherwise the HTTP
    status (\<open>response.ok\<close> is a status from 200 to 299);
  \<^item> \<open>body_saved p\<close>, whether reading the body and \<open>fs.writeFile\<close> to \<open>p\<close> succeed;
  \<^item> \<open>load u\<close>, what the browser does with page \<open>u\<close>.
\<close>

datatype page_end = WriteFailed string | CloseFailed string | Done

datatype page_load =
    LoadError string
  | Loaded "string list" page_end

record wf_env =
  wf_new_URL :: "string \<Rightarrow> url option"
  wf_md5 :: "string \<Rightarrow> 128 word"
  fetch_status :: "nat \<Rightarrow> string \<Rightarrow> nat option"
  body_saved :: "string \<Rightarrow> bool"
  load :: "string \<Rightarrow> page_load"

text \<open>
  \<open>LoadError msg\<close>: a step of the \<open>try\<close> block before the download loop threw (browser
  context, navigation, waiting, extraction). \<open>Loaded found e\<close>: extraction collected
  the candidate URLs \<open>found\<close> (in the order they were added to the \<open>Set\<close>), and after the
  downloads \<open>page.content()\<close> or the write of the raw HTML threw (\<open>WriteFailed\<close>),
  \<open>context.close()\<close> threw (\<open>CloseFailed\<close>), or nothing did (\<open>Done\<close>).
\<close>

definition OUTPUT_DIR :: string where "OUTPUT_DIR = ''./raw_download''"
definition ASSETS_DIR :: string where "ASSETS_DIR = path_join OUTPUT_DIR ''assets''"
definition PAGES_DIR :: string where "PAGES_DIR = path_join OUTPUT_DIR ''pages''"

definition TARGET_PAGES :: "string list" where
  "TARGET_PAGES = [''https://apply.agency/'', ''https://apply.agency/cases'']"

record asset_ref =
  originalUrl :: string
  localPath :: string
  hash :: string
  extension :: string

record page_record =
  assets :: "asset_ref list"
  rawHtml :: "string option"
  error :: "string option"

record manifest =
  pages :: "(string \<times> page_record) list"
  asset_table :: "(string \<times> asset_ref) list"

text \<open>
  A JavaScript object used as a dictionary is an association list in insertion order:
  \<open>obj[k]\<close> is \<open>map_of\<close>, \<open>obj[k] = v\<close> is \<open>AList.update\<close>. The field \<open>manifest.assets\<close> is
  named \<open>asset_table\<close> here, since a page record has a field \<open>assets\<close> too.

  The \<open>AssetRef\<close> that a successful attempt returns (lines 59 to 74). \<open>||\<close> takes
  \<open>.bin\<close> when the extension is the empty string.
\<close>

definition asset_hash :: "(string \<Rightarrow> 128 word) \<Rightarrow> string \<Rightarrow> string" where
  "asset_hash md5 u = digest_hex (md5 u)"

definition asset_ext :: "string \<Rightarrow> string" where
  "asset_ext u = (if path_extname u = [] then ''.bin'' else path_extname u)"

definition make_asset :: "(string \<Rightarrow> 128 word) \<Rightarrow> string \<Rightarrow> asset_ref" where
  "make_asset md5 u =
     \<lparr>originalUrl = u,
      localPath = path_join ''assets'' (asset_hash md5 u @ asset_ext u),
      hash = asset_hash md5 u,
      extension = asset_ext u\<rparr>"

definition response_ok :: "nat option \<Rightarrow> bool" where
  "response_ok r = (case r of None \<Rightarrow> False | Some status \<Rightarrow> 200 \<le> status \<and> status \<le> 299)"

text \<open>
  \<open>downloadAsset(url, retries)\<close>: the loop \<open>for (attempt = 1; attempt <= retries;
  attempt++)\<close>, entered at \<open>attempt\<close>. An attempt issues one \<open>fetch\<close>; it succeeds when the
  response is ok and the body is written, and then waits 500 to 1500 ms and returns
  the \<open>AssetRef\<close>. A failed attempt that is the last returns \<open>null\<close>; an earlier one
  waits \<open>2000 * attempt\<close> to \<open>5000 * attempt\<close> ms and goes round again. \<open>None\<close> is \<open>null\<close>
  (and the \<open>undefined\<close> of a loop that never runs).
\<close>

function downloadAsset_from :: "wf_env \<Rightarrow> string \<Rightarrow> nat \<Rightarrow> nat \<Rightarrow> event list \<Rightarrow> asset_ref option \<times> event list" where
  "downloadAsset_from env u retries attempt tr =
     (if attempt \<le> retries then
        let outputPath = path_join ASSETS_DIR (asset_hash (wf_md5 env) u @ asset_ext u);
            tr1 = tr @ [Fetch u]
        in if response_ok (fetch_status env (fetch_count tr) u) \<and> body_saved env outputPath
           then (Some (make_asset (wf_md5 env) u), tr1 @ [FileWritten outputPath, Delay 500 1500])
           else if attempt = retries then (None, tr1)
           else downloadAsset_from env u retries (attempt + 1)
                  (tr1 @ [Delay (2000 * attempt) (5000 * attempt)])
      else (None, tr))"
  by pat_completeness auto
termination
  by (relation "measure (\<lambda>(env, u, retries, attempt, tr). Suc retries - attempt)") auto

definition webflow_downloadAsset :: "wf_env \<Rightarrow> string \<Rightarrow> event list \<Rightarrow> asset_ref option \<times> event list" where
  "webflow_downloadAsset env u tr = downloadAsset_from env u 3 1 tr"

text \<open>
  The download loop of \<open>processPage\<close> (lines 220 to 228) over the extracted URLs, for
  the page \<open>url\<close>: a non-null result is pushed on the page's list and stored in the
  global table under its \<open>originalUrl\<close>.
\<close>

definition record_asset :: "string \<Rightarrow> asset_ref \<Rightarrow> manifest \<Rightarrow> manifest" where
  "record_asset url r m =
     m\<lparr>pages := AList.map_entry url (\<lambda>pr. pr\<lparr>assets := assets pr @ [r]\<rparr>) (pages m),
       asset_table := AList.update (originalUrl r) r (asset_table m)\<rparr>"

fun download_page_assets :: "wf_env \<Rightarrow> string \<Rightarrow> string list \<Rightarrow> manifest \<times> event list \<Rightarrow> manifest \<times> event list" where
  "download_page_assets env url [] (m, tr) = (m, tr)"
| "download_page_assets env url (asset # rest) (m, tr) =
     (if isWebflowAsset (wf_new_URL env) asset then
        (case webflow_downloadAsset env asset tr of
           (Some r, tr') \<Rightarrow> download_page_assets env url rest (record_asset url r m, tr')
         | (None, tr') \<Rightarrow> download_page_assets env url rest (m, tr'))
      else download_page_assets env url rest (m, tr))"

definition set_error :: "string \<Rightarrow> string \<Rightarrow> manifest \<Rightarrow> manifest" where
  "set_error url msg m = m\<lparr>pages := AList.map_entry url (\<lambda>pr. pr\<lparr>error := Some msg\<rparr>) (pages m)\<rparr>"

definition set_rawHtml :: "string \<Rightarrow> string \<Rightarrow> manifest \<Rightarrow> manifest" where
  "set_rawHtml url p m = m\<lparr>pages := AList.map_entry url (\<lambda>pr. pr\<lparr>rawHtml := Some p\<rparr>) (pages m)\<rparr>"

text \<open>
  \<open>processPage(browser, url, manifest)\<close>. A page that has a record is skipped. The
  record is created before the \<open>try\<close>; whatever throws inside it ends in the \<open>catch\<close>,
  which stores the message in the record's \<open>error\<close>. The raw HTML goes to
  \<open>pages/<md5 of the page URL>.html\<close>, stored relative to \<open>OUTPUT_DIR\<close>.
\<close>

fun webflow_processPage :: "wf_env \<Rightarrow> string \<Rightarrow> manifest \<times> event list \<Rightarrow> manifest \<times> event list" where
  "webflow_processPage env url (m, tr) =
     (if map_of (pages m) url \<noteq> None then (m, tr)
      else
        let m1 = m\<lparr>pages := AList.update url \<lparr>assets = [], rawHtml = None, error = None\<rparr> (pages m)\<rparr>
        in (case load env url of
              LoadError msg \<Rightarrow> (set_error url msg m1, tr)
            | Loaded found e \<Rightarrow>
                (case download_page_assets env url (array_from_set found) (m1, tr) of
                   (m2, tr2) \<Rightarrow>
                     let pagePath = path_join PAGES_DIR (digest_hex (wf_md5 env url) @ ''.html'');
                         stored = ''pages/'' @ digest_hex (wf_md5 env url) @ ''.html''
                     in (case e of
                           WriteFailed msg \<Rightarrow> (set_error url msg m2, tr2)
                         | CloseFailed msg \<Rightarrow>
                             (set_error url msg (set_rawHtml url stored m2), tr2 @ [FileWritten pagePath])
                         | Done \<Rightarrow> (set_rawHtml url stored m2, tr2 @ [FileWritten pagePath])))))"

text \<open>
  The loop of \<open>main\<close> over the target pages (lines 271 to 275), from the fresh manifest
  of lines 264 to 268: each page is processed, then the run waits 3000 to 7000 ms.
\<close>

fun process_targets :: "wf_env \<Rightarrow> string list \<Rightarrow> manifest \<times> event list \<Rightarrow> manifest \<times> event list" where
  "process_targets env [] st = st"
| "process_targets env (url # rest) st =
     (case webflow_processPage env url st of
        (m, tr) \<Rightarrow> process_targets env rest (m, tr @ [Delay 3000 7000]))"

definition empty_manifest :: manifest where
  "empty_manifest = \<lparr>pages = [], asset_table = []\<rparr>"

definition webflow_main :: "wf_env \<Rightarrow> string list \<Rightarrow> manifest \<times> event list" where
  "webflow_main env targets = process_targets env targets (empty_manifest, [])"

section \<open>crawler.js\<close>

text \<open>
  The link-following crawler. Every call in it is awaited, so a run is sequential.
  Its surroundings are the record \<open>cr_env\<close>:
  \<^item> \<open>cr_new_URL\<close>, the platform's URL parser;
  \<^item> \<open>get_ok n u\<close>, whether the \<open>n\<close>-th request of the run (counted from 0), when it asks
    for \<open>u\<close>, delivers a response and its body;
  \<^item> \<open>file_ok p\<close>, whether \<open>fs.ensureDir\<close> and \<open>fs.writeFile\<close> for the file \<open>p\<close> succeed;
  \<^item> \<open>view u\<close>, what the browser does with page \<open>u\<close>;
  \<^item> \<open>tab_opens u\<close>, whether \<open>context.newPage()\<close> in the call for \<open>u\<close> delivers a tab, and
    \<open>tab_closes u\<close>, whether \<open>page.close()\<close> for that tab succeeds;
  \<^item> \<open>startup_ok\<close>, whether \<open>initBrowser()\<close> and \<open>fs.ensureDir(config.outputDir)\<close> in
    \<open>main\<close> succeed, and \<open>browser_closes\<close>, whether \<open>browser.close()\<close> does.
  The content written to a page file is not modelled, only that the file is written.
\<close>

datatype page_view =
    GotoFailed
  | SaveFailed "string list"
  | LinksFailed "string list"
  | Rendered "string list" "string list"

text \<open>
  \<open>GotoFailed\<close>: navigation or the extraction of the asset URLs threw. The other three
  carry the asset URLs in the order they were added to the \<open>Set\<close>. \<open>SaveFailed\<close>:
  \<open>page.content()\<close> or the rewriting of the content threw. \<open>LinksFailed\<close>: the
  extraction of the links threw. \<open>Rendered found links\<close>: none of these threw, and
  \<open>links\<close> are the \<open>href\<close>s of the page's anchors in document order.
\<close>

record cr_env =
  cr_new_URL :: "string \<Rightarrow> url option"
  get_ok :: "nat \<Rightarrow> string \<Rightarrow> bool"
  file_ok :: "string \<Rightarrow> bool"
  view :: "string \<Rightarrow> page_view"
  tab_opens :: "string \<Rightarrow> bool"
  tab_closes :: "string \<Rightarrow> bool"
  startup_ok :: bool
  browser_closes :: bool

record crawl_state =
  visited :: "string list"
  downloadedAssets :: "(string \<times> string) list"
  failedUrls :: "string list"
  events :: "event list"

definition initial_state :: crawl_state where
  "initial_state = \<lparr>visited = [], downloadedAssets = [], failedUrls = [], events = []\<rparr>"

text \<open>
  \<open>downloadAsset(url, context)\<close>. A URL that has an entry in \<open>downloadedAssets\<close> is
  answered from it. Otherwise one request is made; when the request, the parse of the
  URL or the write fails, the \<open>catch\<close> adds the URL to \<open>failedUrls\<close> and returns the URL
  itself. The local path is \<open>assets\<close> followed by the URL's pathname.
\<close>

definition crawler_relativePath :: "url \<Rightarrow> string" where
  "crawler_relativePath urlObj = ''assets'' @ pathname urlObj"

definition asset_failed :: "string \<Rightarrow> crawl_state \<Rightarrow> string \<times> crawl_state" where
  "asset_failed u st = (u, st\<lparr>failedUrls := set_add u (failedUrls st)\<rparr>)"

definition crawler_downloadAsset :: "crawler_config \<Rightarrow> cr_env \<Rightarrow> string \<Rightarrow> crawl_state \<Rightarrow> string \<times> crawl_state" where
  "crawler_downloadAsset cfg env u st =
     (case map_of (downloadedAssets st) u of
        Some cached \<Rightarrow> (cached, st)
      | None \<Rightarrow>
          let st1 = st\<lparr>events := events st @ [Fetch u]\<rparr>
          in if \<not> get_ok env (fetch_count (events st)) u then asset_failed u st1
             else (case cr_new_URL env u of
                     None \<Rightarrow> asset_failed u st1
                   | Some urlObj \<Rightarrow>
                       let relativePath = crawler_relativePath urlObj;
                           fullPath = path_join (outputDir cfg) relativePath
                       in if \<not> file_ok env fullPath then asset_failed u st1
                          else (relativePath,
                                st1\<lparr>downloadedAssets := AList.update u relativePath (downloadedAssets st1),
                                    events := events st1 @ [FileWritten fullPath]\<rparr>)))"


text \<open>The file a page is saved to (lines 144 to 151).\<close>

definition crawler_page_file :: "crawler_config \<Rightarrow> url \<Rightarrow> string" where
  "crawler_page_file cfg urlObj =
     (let filePath = path_join (outputDir cfg) (pathname urlObj)
      in if endsWith filePath ''/'' then path_join filePath ''index.html''
         else if path_extname filePath = [] then filePath @ ''.html''
         else filePath)"


text \<open>
  A call either returns or throws; both leave a state behind. \<open>Returned st\<close>: the
  promise is fulfilled. \<open>Threw st\<close>: it is rejected, and the exception travels to the
  nearest enclosing \<open>catch\<close>.
\<close>

datatype 'a completion = Returned 'a | Threw 'a



text \<open>
  Saving the page (lines 144 to 154): the page URL is parsed, and the file is written.
  \<open>None\<close> is an exception of either step.
\<close>

definition save_page :: "crawler_config \<Rightarrow> cr_env \<Rightarrow> string \<Rightarrow> crawl_state \<Rightarrow> crawl_state option" where
  "save_page cfg env u st =
     (case cr_new_URL env u of
        None \<Rightarrow> None
      | Some urlObj \<Rightarrow>
          if file_ok env (crawler_page_file cfg urlObj)
          then Some (st\<lparr>events := events st @ [FileWritten (crawler_page_file cfg urlObj)]\<rparr>)
          else None)"

text \<open>
  The \<open>finally\<close> block (line 172): the tab is closed; when that fails, the call throws.
\<close>

definition close_page :: "cr_env \<Rightarrow> string \<Rightarrow> crawl_state \<Rightarrow> crawl_state completion" where
  "close_page env u st = (if tab_closes env u then Returned st else Threw st)"



section \<open>build-site.js\<close>

text \<open>
  The builder rewrites pages with regular expressions. The patterns it uses are
  sequences of single-character atoms, some optional or starred, so a pattern is a
  list of items. A character is a code unit below 256; \<open>.\<close> matches every character but
  line feed and carriage return.
\<close>

datatype atom = Lit char | AnyChar | OneOf "char list" | NoneOf "char list"

datatype item = One atom | Opt atom | Star atom

type_synonym pattern = "item list"

fun atom_matches :: "atom \<Rightarrow> char \<Rightarrow> bool" where
  "atom_matches (Lit c) x = (x = c)"
| "atom_matches AnyChar x = (x \<noteq> CHR 0x0A \<and> x \<noteq> CHR 0x0D)"
| "atom_matches (OneOf cs) x = (x \<in> set cs)"
| "atom_matches (NoneOf cs) x = (x \<notin> set cs)"

text \<open>
  \<open>match_here p s\<close> matches \<open>p\<close> at the start of \<open>s\<close> the way a backtracking matcher
  does: an optional or starred atom first takes a character when it can, and gives
  it back when the rest of the pattern then fails. The result is what remains of \<open>s\<close>
  behind the match, \<open>None\<close> when there is no match at this position.
\<close>

fun match_here :: "pattern \<Rightarrow> string \<Rightarrow> string option" where
  "match_here [] s = Some s"
| "match_here (One a # p) [] = None"
| "match_here (One a # p) (x # xs) = (if atom_matches a x then match_here p xs else None)"
| "match_here (Opt a # p) [] = match_here p []"
| "match_here (Opt a # p) (x # xs) =
     (if atom_matches a x
      then (case match_here p xs of Some r \<Rightarrow> Some r | None \<Rightarrow> match_here p (x # xs))
      else match_here p (x # xs))"
| "match_here (Star a # p) [] = match_here p []"
| "match_here (Star a # p) (x # xs) =
     (if atom_matches a x
      then (case match_here (Star a # p) xs of Some r \<Rightarrow> Some r | None \<Rightarrow> match_here p (x # xs))
      else match_here p (x # xs))"

text \<open>
  The replacement string of \<open>String.prototype.replace\<close>: \<open>$$\<close> is a dollar sign, \<open>$&\<close>
  the matched text, \<open>$`\<close> the text before the match (\<open>left\<close>) and \<open>$'\<close> the text after it (\<open>right\<close>). The
  patterns have no groups, so every other \<open>$\<close> stands for itself.
\<close>

fun expand_replacement :: "string \<Rightarrow> string \<Rightarrow> string \<Rightarrow> string \<Rightarrow> string" where
  "expand_replacement [] left matched right = []"
| "expand_replacement [c] left matched right = [c]"
| "expand_replacement (c # d # r) left matched right =
     (if c = CHR ''$'' \<and> d = CHR ''$'' then CHR ''$'' # expand_replacement r left matched right
      else if c = CHR ''$'' \<and> d = CHR ''&'' then matched @ expand_replacement r left matched right
      else if c = CHR ''$'' \<and> d = CHR 0x60 then left @ expand_replacement r left matched right
      else if c = CHR ''$'' \<and> d = sq then right @ expand_replacement r left matched right
      else c # expand_replacement (d # r) left matched right)"

text \<open>
  \<open>s.replace(pattern, rep)\<close> without the \<open>g\<close> flag replaces the first match, scanning
  from the left; \<open>left\<close> is the text already passed.
\<close>

fun replace_first_from :: "pattern \<Rightarrow> string \<Rightarrow> string \<Rightarrow> string \<Rightarrow> string" where
  "replace_first_from pat rep left [] =
     (case match_here pat [] of
        Some rest \<Rightarrow> expand_replacement rep left [] []
      | None \<Rightarrow> [])"
| "replace_first_from pat rep left (c # cs) =
     (case match_here pat (c # cs) of
        Some rest \<Rightarrow>
          expand_replacement rep left (take (length (c # cs) - length rest) (c # cs)) rest @ rest
      | None \<Rightarrow> c # replace_first_from pat rep (left @ [c]) cs)"

definition replace_first :: "pattern \<Rightarrow> string \<Rightarrow> string \<Rightarrow> string" where
  "replace_first pat rep s = replace_first_from pat rep [] s"

text \<open>
  With the \<open>g\<close> flag every match is replaced, from the left, a match starting where
  the one before it ended; after an empty match the scan moves on by one character.
\<close>

function replace_all_from :: "pattern \<Rightarrow> string \<Rightarrow> string \<Rightarrow> string \<Rightarrow> string" where
  "replace_all_from pat rep left [] =
     (case match_here pat [] of
        Some rest \<Rightarrow> expand_replacement rep left [] []
      | None \<Rightarrow> [])"
| "replace_all_from pat rep left (c # cs) =
     (case match_here pat (c # cs) of
        Some rest \<Rightarrow>
          if length rest < length (c # cs)
          then expand_replacement rep left (take (length (c # cs) - length rest) (c # cs)) rest
               @ replace_all_from pat rep (left @ take (length (c # cs) - length rest) (c # cs)) rest
          else expand_replacement rep left [] (c # cs)
               @ c # replace_all_from pat rep (left @ [c]) cs
      | None \<Rightarrow> c # replace_all_from pat rep (left @ [c]) cs)"
  by pat_completeness auto
termination
  by (relation "measure (\<lambda>(pat, rep, left, s). length s)") auto

definition replace_all :: "pattern \<Rightarrow> string \<Rightarrow> string \<Rightarrow> string" where
  "replace_all pat rep s = replace_all_from pat rep [] s"

text \<open>
  The pattern \<open>/<base[^>]*>/\<close> of line 16.
\<close>

definition base_tag :: pattern where
  "base_tag = map (One \<circ> Lit) ''<base'' @ [Star (NoneOf ''>''), One (Lit CHR ''>'')]"

text \<open>
  The three patterns that \<open>new RegExp\<close> builds around an asset URL (lines 33, 39 and
  45). The URL is pasted into the pattern source as it is, so its characters are read
  as pattern syntax. \<open>src_source\<close>, \<open>href_source\<close> and \<open>url_source\<close> are the three source
  texts. For a URL without a character that is special in a pattern, apart from the
  dot, the pattern is known: a literal for every character and the any-character atom
  for every dot (\<open>compile_url\<close>), between the quotes and parentheses of the template.
  For every other URL the pattern is whatever the platform's \<open>RegExp\<close> makes of the
  source text, and the replace is left to the parameter \<open>engine\<close>:
  \<open>engine source rep s\<close> is \<open>s.replace(new RegExp(source, 'g'), rep)\<close>, and \<open>None\<close> when the
  constructor throws a \<open>SyntaxError\<close>.
\<close>

type_synonym regexp_engine = "string \<Rightarrow> string \<Rightarrow> string \<Rightarrow> string option"

definition special_char :: "char \<Rightarrow> bool" where
  "special_char c = (c = CHR 0x5C \<or> c \<in> set ''^$*+?()[]{}|'')"

definition compile_url :: "string \<Rightarrow> pattern option" where
  "compile_url u =
     (if list_ex special_char u then None
      else Some (map (\<lambda>c. if c = CHR ''.'' then One AnyChar else One (Lit c)) u))"

definition src_source :: "string \<Rightarrow> string" where
  "src_source u = ''src=['' @ [dq, sq] @ '']'' @ u @ ''['' @ [dq, sq] @ '']''"

definition href_source :: "string \<Rightarrow> string" where
  "href_source u = ''href=['' @ [dq, sq] @ '']'' @ u @ ''['' @ [dq, sq] @ '']''"

definition url_source :: "string \<Rightarrow> string" where
  "url_source u =
     ''url'' @ [CHR 0x5C] @ ''(['' @ [sq, dq] @ '']?'' @ u @ ''['' @ [sq, dq] @ '']?'' @ [CHR 0x5C] @ '')''"

definition src_pattern :: "pattern \<Rightarrow> pattern" where
  "src_pattern u = map (One \<circ> Lit) ''src='' @ [One (OneOf [dq, sq])] @ u @ [One (OneOf [dq, sq])]"

definition href_pattern :: "pattern \<Rightarrow> pattern" where
  "href_pattern u = map (One \<circ> Lit) ''href='' @ [One (OneOf [dq, sq])] @ u @ [One (OneOf [dq, sq])]"

definition url_pattern :: "pattern \<Rightarrow> pattern" where
  "url_pattern u =
     map (One \<circ> Lit) ''url('' @ [Opt (OneOf [sq, dq])] @ u @ [Opt (OneOf [sq, dq]), One (Lit CHR '')'')]"

text \<open>
  \<open>content.replace(new RegExp(source, 'g'), rep)\<close>, where \<open>known\<close> is the pattern of
  \<open>source\<close> when the URL in it has no special character.
\<close>

definition global_replace :: "regexp_engine \<Rightarrow> string \<Rightarrow> pattern option \<Rightarrow> string \<Rightarrow> string \<Rightarrow> string option" where
  "global_replace engine source known rep s =
     (case known of
        Some pat \<Rightarrow> Some (replace_all pat rep s)
      | None \<Rightarrow> engine source rep s)"

text \<open>\<open>getRelativePath(from, to)\<close>; \<open>filter(Boolean)\<close> drops the empty parts.\<close>

definition getRelativePath :: "string \<Rightarrow> string \<Rightarrow> string" where
  "getRelativePath from to =
     (let fromParts = filter (\<lambda>part. part \<noteq> []) (split_on CHR ''/'' from);
          depth = int (length fromParts) - 1
      in if depth > 0 then concat (replicate (nat depth) ''../'') @ to else to)"

text \<open>
  The name of a page's file under the output directory, from the pathname of its URL
  (lines 28 and 93).
\<close>

definition page_file_name :: "string \<Rightarrow> string" where
  "page_file_name urlPath =
     (if urlPath = ''/'' then ''index.html''
      else drop 1 urlPath @ (if endsWith urlPath ''/'' then ''index.html'' else []))"

text \<open>
  What can go wrong with one page: the page URL does not parse, \<open>new RegExp\<close> rejects a
  pattern source, the page's record names no raw file, the raw file cannot be read, or
  the output file cannot be written.
\<close>

datatype build_error =
    InvalidUrl
  | InvalidRegExp string
  | NoRawFile
  | RawUnreadable string
  | OutputFailed string

text \<open>One round of the loop of \<open>processHtml\<close> (lines 26 to 48), for one asset.\<close>

definition rewrite_asset :: "regexp_engine \<Rightarrow> (string \<Rightarrow> url option) \<Rightarrow> string \<Rightarrow> asset_ref \<Rightarrow> string \<Rightarrow> build_error + string" where
  "rewrite_asset engine new_URL pageUrl asset content =
     (case new_URL pageUrl of
        None \<Rightarrow> Inl InvalidUrl
      | Some parsed \<Rightarrow>
          let urlPath = pathname parsed;
              fileName = page_file_name urlPath;
              relativePath = getRelativePath fileName (localPath asset);
              u = originalUrl asset;
              known = compile_url u
          in (case global_replace engine (src_source u) (map_option src_pattern known)
                     (''src='' @ [dq] @ relativePath @ [dq]) content of
                None \<Rightarrow> Inl (InvalidRegExp (src_source u))
              | Some content1 \<Rightarrow>
                  (case global_replace engine (href_source u) (map_option href_pattern known)
                          (''href='' @ [dq] @ relativePath @ [dq]) content1 of
                     None \<Rightarrow> Inl (InvalidRegExp (href_source u))
                   | Some content2 \<Rightarrow>
                       (case global_replace engine (url_source u) (map_option url_pattern known)
                               (''url('' @ [sq] @ relativePath @ [sq] @ '')'') content2 of
                          None \<Rightarrow> Inl (InvalidRegExp (url_source u))
                        | Some content3 \<Rightarrow> Inr content3))))"

fun rewrite_assets :: "regexp_engine \<Rightarrow> (string \<Rightarrow> url option) \<Rightarrow> string \<Rightarrow> asset_ref list \<Rightarrow> string \<Rightarrow> build_error + string" where
  "rewrite_assets engine new_URL pageUrl [] content = Inr content"
| "rewrite_assets engine new_URL pageUrl (asset # rest) content =
     (case rewrite_asset engine new_URL pageUrl asset content of
        Inl e \<Rightarrow> Inl e
      | Inr content' \<Rightarrow> rewrite_assets engine new_URL pageUrl rest content')"

text \<open>
  \<open>processHtml(rawContent, pageUrl, manifest)\<close>. The base tag is removed first; a page
  without a record in the manifest is returned like that.
\<close>

definition processHtml :: "regexp_engine \<Rightarrow> (string \<Rightarrow> url option) \<Rightarrow> string \<Rightarrow> string \<Rightarrow> manifest \<Rightarrow> build_error + string" where
  "processHtml engine new_URL rawContent pageUrl m =
     (let content = replace_first base_tag [] rawContent
      in case map_of (pages m) pageUrl of
           None \<Rightarrow> Inr content
         | Some pageInfo \<Rightarrow> rewrite_assets engine new_URL pageUrl (assets pageInfo) content)"

text \<open>
  \<open>buildSite\<close> works on the disk. Its surroundings are the record \<open>build_env\<close>:
  \<^item> \<open>b_new_URL\<close> and \<open>b_engine\<close>, the platform's URL parser and regular expressions;
  \<^item> \<open>read_manifest\<close>, the parsed content of \<open>raw_download/manifest.json\<close>, \<open>None\<close> when the
    file cannot be read or parsed;
  \<^item> \<open>prepare_ok\<close>, whether the output directory is emptied and created (lines 60 to 62);
  \<^item> \<open>read_file p\<close>, the content of the input file \<open>p\<close>, \<open>None\<close> when it cannot be read;
  \<^item> \<open>disk_ok p\<close>, whether the disk accepts the directory or file \<open>p\<close>, apart from what
    the output written so far forbids.
  The output written so far is a \<open>file_system\<close>: the directories made and the files
  written, with their content, under normalized paths. A directory cannot be made
  where a file is, nor below a file; a file cannot be written where a directory is.
\<close>

record build_env =
  b_new_URL :: "string \<Rightarrow> url option"
  b_engine :: regexp_engine
  read_manifest :: "manifest option"
  prepare_ok :: bool
  read_file :: "string \<Rightarrow> string option"
  disk_ok :: "string \<Rightarrow> bool"

record file_system =
  dirs :: "string list"
  files :: "(string \<times> string) list"

definition INPUT_DIR :: string where "INPUT_DIR = ''./raw_download''"

definition BUILT_DIR :: string where "BUILT_DIR = ''./built_site''"

text \<open>
  \<open>path.dirname\<close>: trailing slashes and the last segment are dropped, together with
  the slash before it; the first character is never dropped.
\<close>

definition path_dirname :: "string \<Rightarrow> string" where
  "path_dirname p =
     (if p = [] then ''.''
      else
        let hasRoot = (hd p = CHR ''/'');
            body = dropWhile (\<lambda>c. c \<noteq> CHR ''/'') (dropWhile (\<lambda>c. c = CHR ''/'') (rev (tl p)))
        in if body = [] then (if hasRoot then ''/'' else ''.'')
           else if hasRoot \<and> length body = 1 then ''//''
           else take (length body) p)"

text \<open>
  \<open>dir_chain d\<close>: the directory \<open>d\<close> and the directories above it, outermost first.
  \<open>fs.mkdir(d, { recursive: true })\<close> makes all of them; \<open>fs.writeFile\<close> and \<open>fs.copyFile\<close>
  write one file.
\<close>

definition dir_chain :: "string \<Rightarrow> string list" where
  "dir_chain d =
     (let segs = split_on CHR ''/'' d
      in map (\<lambda>n. join_with ''/'' (take n segs)) [1..<Suc (length segs)])"

definition mkdir_p :: "build_env \<Rightarrow> string \<Rightarrow> file_system \<Rightarrow> file_system option" where
  "mkdir_p env d fs =
     (if list_ex (\<lambda>p. map_of (files fs) p \<noteq> None) (dir_chain d) \<or> \<not> disk_ok env d then None
      else Some (fs\<lparr>dirs := fold set_add (dir_chain d) (dirs fs)\<rparr>))"

definition write_file :: "build_env \<Rightarrow> string \<Rightarrow> string \<Rightarrow> file_system \<Rightarrow> file_system option" where
  "write_file env p c fs =
     (if p \<in> set (dirs fs) \<or> \<not> disk_ok env p then None
      else Some (fs\<lparr>files := AList.update p c (files fs)\<rparr>))"

text \<open>
  One round of the copy loop (lines 66 to 77): a failure of any step is caught and
  logged, and what was made before it stays.
\<close>

definition copy_asset :: "build_env \<Rightarrow> asset_ref \<Rightarrow> file_system \<Rightarrow> file_system" where
  "copy_asset env asset fs =
     (let sourcePath = path_join INPUT_DIR (localPath asset);
          targetPath = path_join BUILT_DIR (localPath asset)
      in case read_file env sourcePath of
           None \<Rightarrow> fs
         | Some bytes \<Rightarrow>
             (case mkdir_p env (path_dirname targetPath) fs of
                None \<Rightarrow> fs
              | Some fs1 \<Rightarrow>
                  (case write_file env targetPath bytes fs1 of
                     None \<Rightarrow> fs1
                   | Some fs2 \<Rightarrow> fs2)))"

text \<open>
  One round of the page loop (lines 81 to 102): \<open>Built p\<close> is the line
  \<open>Built page: p\<close>, \<open>PageError\<close> the line that the \<open>catch\<close> logs.
\<close>

datatype page_result = Built string | PageError build_error

definition build_page :: "build_env \<Rightarrow> manifest \<Rightarrow> string \<Rightarrow> page_record \<Rightarrow> file_system \<Rightarrow> page_result \<times> file_system" where
  "build_page env m url pageInfo fs =
     (case rawHtml pageInfo of
        None \<Rightarrow> (PageError NoRawFile, fs)
      | Some rawName \<Rightarrow>
          (case read_file env (path_join INPUT_DIR rawName) of
             None \<Rightarrow> (PageError (RawUnreadable (path_join INPUT_DIR rawName)), fs)
           | Some raw \<Rightarrow>
               (case processHtml (b_engine env) (b_new_URL env) raw url m of
                  Inl e \<Rightarrow> (PageError e, fs)
                | Inr processedHtml \<Rightarrow>
                    (case b_new_URL env url of
                       None \<Rightarrow> (PageError InvalidUrl, fs)
                     | Some parsed \<Rightarrow>
                         let outputPath = path_join BUILT_DIR (page_file_name (pathname parsed))
                         in (case mkdir_p env (path_dirname outputPath) fs of
                               None \<Rightarrow> (PageError (OutputFailed outputPath), fs)
                             | Some fs1 \<Rightarrow>
                                 (case write_file env outputPath processedHtml fs1 of
                                    None \<Rightarrow> (PageError (OutputFailed outputPath), fs1)
                                  | Some fs2 \<Rightarrow> (Built outputPath, fs2)))))))"

fun build_pages :: "build_env \<Rightarrow> manifest \<Rightarrow> (string \<times> page_record) list \<Rightarrow> file_system \<Rightarrow> page_result list \<times> file_system" where
  "build_pages env m [] fs = ([], fs)"
| "build_pages env m ((url, pageInfo) # rest) fs =
     (let (r, fs1) = build_page env m url pageInfo fs;
          (rs, fs2) = build_pages env m rest fs1
      in (r # rs, fs2))"

text \<open>The output directory after its preparation (lines 60 to 62).\<close>

definition fresh_output :: file_system where
  "fresh_output = \<lparr>dirs = [''built_site'', ''built_site/assets''], files = []\<rparr>"

text \<open>
  \<open>buildSite()\<close>: \<open>None\<close> is the line \<open>Build failed\<close> of the outer \<open>catch\<close>, when the manifest
  cannot be read or the output directory cannot be prepared. Otherwise the assets of
  the manifest are copied and then the pages are built, in the order of the manifest.
\<close>

definition buildSite :: "build_env \<Rightarrow> (page_result list \<times> file_system) option" where
  "buildSite env =
     (case read_manifest env of
        None \<Rightarrow> None
      | Some m \<Rightarrow>
          if \<not> prepare_ok env then None
          else
            let fs1 = fold (\<lambda>(url, asset). copy_asset env asset) (asset_table m) fresh_output
            in Some (build_pages env m (pages m) fs1))"

section \<open>Notions and example runs used in the statements\<close>

text \<open>
  Whether the attempt that issues the \<open>n\<close>-th \<open>fetch\<close> of the run for \<open>u\<close> succeeds in
  \<open>webflow-crawler.js\<close>: the response is ok and the file is written.
\<close>

definition attempt_ok :: "wf_env \<Rightarrow> string \<Rightarrow> nat \<Rightarrow> bool" where
  "attempt_ok env u n =
     (response_ok (fetch_status env n u)
      \<and> body_saved env (path_join ASSETS_DIR (asset_hash (wf_md5 env) u @ asset_ext u)))"

text \<open>The asset URLs a manifest records, in the global table or on a page.\<close>

definition recorded_urls :: "manifest \<Rightarrow> string list" where
  "recorded_urls m =
     map fst (asset_table m) @ concat (map (\<lambda>(p, pr). map originalUrl (assets pr)) (pages m))"

text \<open>
  The invariant of the manifest and the trace in \<open>webflow-crawler.js\<close>: every
  \<open>AssetRef\<close> on a page is the entry of the global table under its URL, and every entry
  of the table is the \<open>AssetRef\<close> of its key, whose file was written in this run.
\<close>

definition wf_inv :: "wf_env \<Rightarrow> manifest \<times> event list \<Rightarrow> bool" where
  "wf_inv env st =
     (case st of (m, tr) \<Rightarrow>
        (\<forall>url pr. map_of (pages m) url = Some pr \<longrightarrow>
           (\<forall>a \<in> set (assets pr). map_of (asset_table m) (originalUrl a) = Some a)) \<and>
        (\<forall>k a. map_of (asset_table m) k = Some a \<longrightarrow>
           a = make_asset (wf_md5 env) k
           \<and> FileWritten (path_join ASSETS_DIR (asset_hash (wf_md5 env) k @ asset_ext k)) \<in> set tr))"

text \<open>The keys of the manifest's two dictionaries are distinct.\<close>

definition wf_keys :: "manifest \<Rightarrow> bool" where
  "wf_keys m = (distinct (map fst (pages m)) \<and> distinct (map fst (asset_table m)))"

text \<open>
  What the record \<open>pr\<close> of a processed page \<open>url\<close> says, by what the browser did with
  the page: an exception leaves its message in \<open>error\<close>; the raw HTML is recorded when
  it was written.
\<close>

definition page_outcome :: "wf_env \<Rightarrow> string \<Rightarrow> page_record \<Rightarrow> bool" where
  "page_outcome env url pr =
     (case load env url of
        LoadError msg \<Rightarrow> pr = \<lparr>assets = [], rawHtml = None, error = Some msg\<rparr>
      | Loaded found e \<Rightarrow>
          (case e of
             WriteFailed msg \<Rightarrow> rawHtml pr = None \<and> error pr = Some msg
           | CloseFailed msg \<Rightarrow>
               rawHtml pr = Some (''pages/'' @ digest_hex (wf_md5 env url) @ ''.html'')
               \<and> error pr = Some msg
           | Done \<Rightarrow>
               rawHtml pr = Some (''pages/'' @ digest_hex (wf_md5 env url) @ ''.html'')
               \<and> error pr = None))"

text \<open>The asset URLs of a page that pass the filter, as the browser found them.\<close>

definition page_candidates :: "wf_env \<Rightarrow> string \<Rightarrow> string list" where
  "page_candidates env url =
     (case load env url of
        LoadError msg \<Rightarrow> []
      | Loaded found e \<Rightarrow> filter (isWebflowAsset (wf_new_URL env)) found)"

definition wf_done :: "wf_env \<Rightarrow> manifest \<times> event list \<Rightarrow> bool" where
  "wf_done env st =
     (case st of (m, tr) \<Rightarrow>
        \<forall>url pr. map_of (pages m) url = Some pr \<longrightarrow>
          page_outcome env url pr \<and> (\<forall>a \<in> set (page_candidates env url). Fetch a \<in> set tr))"

text \<open>
  Example surroundings of \<open>webflow-crawler.js\<close>. Every page shows the one image
  \<open>x.png\<close> of the CDN. In \<open>wf_offline\<close> every \<open>fetch\<close> rejects; in \<open>wf_flaky\<close> the first
  two calls of the run reject and the later ones answer 200; in \<open>wf_online\<close> every call
  answers 200.
\<close>

definition x_png :: string where
  "x_png = ''https://cdn.prod.website-files.com/x.png''"

definition wf_offline :: wf_env where
  "wf_offline = \<lparr>wf_new_URL = http_url, wf_md5 = toy_digest, fetch_status = (\<lambda>n u. None),
     body_saved = (\<lambda>p. True), load = (\<lambda>u. Loaded [x_png] Done)\<rparr>"

definition wf_flaky :: wf_env where
  "wf_flaky = \<lparr>wf_new_URL = http_url, wf_md5 = toy_digest,
     fetch_status = (\<lambda>n u. if n < 2 then None else Some 200),
     body_saved = (\<lambda>p. True), load = (\<lambda>u. Loaded [x_png] Done)\<rparr>"

definition wf_online :: wf_env where
  "wf_online = \<lparr>wf_new_URL = http_url, wf_md5 = toy_digest, fetch_status = (\<lambda>n u. Some 200),
     body_saved = (\<lambda>p. True), load = (\<lambda>u. Loaded [x_png] Done)\<rparr>"

text \<open>
  In \<open>wf_broken\<close> the navigation to the home page times out, the other pages show
  \<open>x.png\<close> and \<open>y.png\<close>, every request for \<open>x.png\<close> is answered 404 and every other
  request 200.
\<close>

definition y_png :: string where
  "y_png = ''https://cdn.prod.website-files.com/y.png''"

definition wf_broken :: wf_env where
  "wf_broken = \<lparr>wf_new_URL = http_url, wf_md5 = toy_digest,
     fetch_status = (\<lambda>n u. if u = x_png then Some 404 else Some 200),
     body_saved = (\<lambda>p. True),
     load = (\<lambda>u. if u = ''https://apply.agency/'' then LoadError ''Timeout 30000ms exceeded''
                 else Loaded [x_png, y_png] Done)\<rparr>"

text \<open>
  Example surroundings of \<open>crawler.js\<close>: the site has the pages \<open>/a\<close> and \<open>/b\<close>, which
  link to each other (and \<open>/a\<close> to a page of another site); every request and every
  write succeeds.
\<close>

definition page_a :: string where "page_a = ''https://apply.agency/a''"
definition page_b :: string where "page_b = ''https://apply.agency/b''"

definition cr_online :: cr_env where
  "cr_online = \<lparr>cr_new_URL = http_url, get_ok = (\<lambda>n u. True), file_ok = (\<lambda>p. True),
     view = (\<lambda>u. if u = page_a then Rendered [] [page_b, ''https://evil.com/'']
                 else if u = page_b then Rendered [] [page_a]
                 else GotoFailed),
     tab_opens = (\<lambda>u. True), tab_closes = (\<lambda>u. True), startup_ok = True,
     browser_closes = True\<rparr>"



text \<open>The configuration of \<open>crawler.js\<close>, started at the page \<open>/a\<close> of the example site.\<close>

definition cycle_config :: crawler_config where
  "cycle_config = config\<lparr>startUrl := page_a\<rparr>"



text \<open>
  \<open>closed_except E P S\<close>: every page of \<open>S\<close> outside \<open>P\<close> has all its successors in \<open>S\<close>.
  \<open>visit_ok E roots st st'\<close>: from \<open>st\<close> to \<open>st'\<close> the visited set grew, by pages reachable
  from \<open>roots\<close> only, it contains \<open>roots\<close>, it stayed closed wherever it was, and the
  trace gained exactly one \<open>Processing\<close> line for every page that became visited.
  \<open>visit_safe\<close> is the part of it that does not need the calls to return: the visited
  set grew, by reachable pages only, with one \<open>Processing\<close> line for each.
\<close>

definition closed_except :: "(string \<times> string) set \<Rightarrow> string set \<Rightarrow> string set \<Rightarrow> bool" where
  "closed_except E P S = (\<forall>x \<in> S - P. E `` {x} \<subseteq> S)"

definition visit_safe :: "(string \<times> string) set \<Rightarrow> string set \<Rightarrow> crawl_state \<Rightarrow> crawl_state \<Rightarrow> bool" where
  "visit_safe E roots st st' =
     (set (visited st) \<subseteq> set (visited st')
      \<and> set (visited st') \<subseteq> set (visited st) \<union> E\<^sup>* `` roots
      \<and> (\<forall>x. count_list (events st') (Processing x) =
             count_list (events st) (Processing x)
             + (if x \<in> set (visited st') - set (visited st) then 1 else 0)))"

definition visit_ok :: "(string \<times> string) set \<Rightarrow> string set \<Rightarrow> crawl_state \<Rightarrow> crawl_state \<Rightarrow> bool" where
  "visit_ok E roots st st' =
     (set (visited st) \<subseteq> set (visited st')
      \<and> roots \<subseteq> set (visited st')
      \<and> set (visited st') \<subseteq> set (visited st) \<union> E\<^sup>* `` roots
      \<and> (\<forall>P. closed_except E P (set (visited st)) \<longrightarrow> closed_except E P (set (visited st')))
      \<and> (\<forall>x. count_list (events st') (Processing x) =
             count_list (events st) (Processing x)
             + (if x \<in> set (visited st') - set (visited st) then 1 else 0)))"

text \<open>
  A clean path segment is not empty, has no slash and is neither \<open>.\<close> nor \<open>..\<close>; \<open>dots n\<close>
  is \<open>n\<close> times \<open>../\<close>.
\<close>

definition clean_segment :: "string \<Rightarrow> bool" where
  "clean_segment seg = (seg \<noteq> [] \<and> CHR ''/'' \<notin> set seg \<and> seg \<noteq> ''.'' \<and> seg \<noteq> ''..'')"

definition dots :: "nat \<Rightarrow> string" where
  "dots n = concat (replicate n ''../'')"

text \<open>
  An example manifest for the builder: the page \<open>/cases\<close> uses one image, stored as
  \<open>assets/x.png\<close>; \<open>slash_manifest\<close> has the same record for the page \<open>/cases/\<close>.
\<close>

definition x_asset :: asset_ref where
  "x_asset = \<lparr>originalUrl = ''https://cdn/x.png'', localPath = ''assets/x.png'',
              hash = ''x'', extension = ''.png''\<rparr>"

definition cases_manifest :: manifest where
  "cases_manifest =
     \<lparr>pages = [(''https://apply.agency/cases'',
                \<lparr>assets = [x_asset], rawHtml = Some ''pages/cases.html'', error = None\<rparr>)],
      asset_table = [(''https://cdn/x.png'', x_asset)]\<rparr>"

definition slash_manifest :: manifest where
  "slash_manifest =
     \<lparr>pages = [(''https://apply.agency/cases/'',
                \<lparr>assets = [x_asset], rawHtml = Some ''pages/cases.html'', error = None\<rparr>)],
      asset_table = [(''https://cdn/x.png'', x_asset)]\<rparr>"

text \<open>
  A page as the builder sees it is a text in which asset references stand. A \<open>piece\<close>
  is either text without a reference or one reference: \<open>src=\<close> or \<open>href=\<close> with a quoted
  URL, or \<open>url(...)\<close> with or without quotes. \<open>render\<close> is the text of a list of
  pieces.
\<close>

datatype piece = Text string | Src char string char | Href char string char | Css string string string

fun render_piece :: "piece \<Rightarrow> string" where
  "render_piece (Text t) = t"
| "render_piece (Src q v q') = ''src='' @ [q] @ v @ [q']"
| "render_piece (Href q v q') = ''href='' @ [q] @ v @ [q']"
| "render_piece (Css oq v oq') = ''url('' @ oq @ v @ oq' @ '')''"

definition render :: "piece list \<Rightarrow> string" where
  "render doc = concat (map render_piece doc)"

text \<open>
  A text is \<open>inert\<close> when none of \<open>src=\<close>, \<open>href=\<close> and \<open>url(\<close> occurs in it. A reference
  (\<open>plain_ref\<close>) is a non-empty inert text without quotes and without a closing
  parenthesis. A piece is well-formed (\<open>piece_ok\<close>) when its text is inert or its
  reference plain and its quotes quotes; a list of pieces is \<open>separated\<close> when no two
  texts follow each other. \<open>refs\<close> is the reference of a piece, if it has one.
\<close>

definition quote_mark :: "char \<Rightarrow> bool" where
  "quote_mark q = (q = dq \<or> q = sq)"

definition opt_quote :: "string \<Rightarrow> bool" where
  "opt_quote oq = (oq = [] \<or> oq = [dq] \<or> oq = [sq])"

definition inert :: "string \<Rightarrow> bool" where
  "inert x = (\<not> str_includes x ''src='' \<and> \<not> str_includes x ''href='' \<and> \<not> str_includes x ''url('')"

definition plain_ref :: "string \<Rightarrow> bool" where
  "plain_ref v = (v \<noteq> [] \<and> dq \<notin> set v \<and> sq \<notin> set v \<and> CHR '')'' \<notin> set v \<and> inert v)"

fun piece_ok :: "piece \<Rightarrow> bool" where
  "piece_ok (Text t) = inert t"
| "piece_ok (Src q v q') = (quote_mark q \<and> quote_mark q' \<and> plain_ref v)"
| "piece_ok (Href q v q') = (quote_mark q \<and> quote_mark q' \<and> plain_ref v)"
| "piece_ok (Css oq v oq') = (opt_quote oq \<and> opt_quote oq' \<and> plain_ref v)"

fun is_Text :: "piece \<Rightarrow> bool" where
  "is_Text (Text t) = True"
| "is_Text p = False"

fun separated :: "piece list \<Rightarrow> bool" where
  "separated [] = True"
| "separated [p] = True"
| "separated (p # p' # rest) = (\<not> (is_Text p \<and> is_Text p') \<and> separated (p' # rest))"

fun refs :: "piece \<Rightarrow> string list" where
  "refs (Text t) = []"
| "refs (Src q v q') = [v]"
| "refs (Href q v q') = [v]"
| "refs (Css oq v oq') = [v]"

text \<open>
  \<open>takes_for u v\<close>: the pattern made of \<open>u\<close>, in which a dot stands for any character,
  gets through the text \<open>v\<close> and the quote or parenthesis behind it, so the pattern
  can take \<open>v\<close> for \<open>u\<close>. An asset URL is plain (\<open>plain_asset_url\<close>) when it is a reference,
  has no character that is special in a pattern, and does not start with a dot.
\<close>

fun takes_for :: "string \<Rightarrow> string \<Rightarrow> bool" where
  "takes_for [] [] = True"
| "takes_for [] (c # cs) = False"
| "takes_for (p # ps) [] = (p = CHR ''.'')"
| "takes_for (p # ps) (c # cs) =
     ((p = c \<or> (p = CHR ''.'' \<and> c \<noteq> CHR 0x0A \<and> c \<noteq> CHR 0x0D)) \<and> takes_for ps cs)"

definition plain_asset_url :: "string \<Rightarrow> bool" where
  "plain_asset_url u = (plain_ref u \<and> \<not> list_ex special_char u \<and> hd u \<noteq> CHR ''.'')"

text \<open>
  \<open>rewrite_piece tbl\<close> replaces the reference of a piece by the path that \<open>tbl\<close> gives
  for it, in the form the builder writes: \<open>src="..."\<close>, \<open>href="..."\<close> and \<open>url('...')\<close>. A text
  and a reference without an entry in \<open>tbl\<close> stay as they are.
\<close>

fun rewrite_piece :: "(string \<Rightarrow> string option) \<Rightarrow> piece \<Rightarrow> piece" where
  "rewrite_piece tbl (Text t) = Text t"
| "rewrite_piece tbl (Src q v q') = (case tbl v of None \<Rightarrow> Src q v q' | Some rp \<Rightarrow> Src dq rp dq)"
| "rewrite_piece tbl (Href q v q') = (case tbl v of None \<Rightarrow> Href q v q' | Some rp \<Rightarrow> Href dq rp dq)"
| "rewrite_piece tbl (Css oq v oq') = (case tbl v of None \<Rightarrow> Css oq v oq' | Some rp \<Rightarrow> Css [sq] rp [sq])"

text \<open>
  \<open>page_paths parsed as\<close>: for the assets of a page, the original URL and the relative
  path that \<open>processHtml\<close> computes for it. \<open>rewritable tbl doc\<close> collects what the
  statement about the rewriting asks of a page and its assets: the pieces are
  well-formed and separated; every asset URL is plain and its pattern takes neither a
  relative path nor another reference of the page for it; every relative path is a
  reference without a dollar sign.
\<close>

definition page_paths :: "url \<Rightarrow> asset_ref list \<Rightarrow> (string \<times> string) list" where
  "page_paths parsed as =
     map (\<lambda>a. (originalUrl a, getRelativePath (page_file_name (pathname parsed)) (localPath a))) as"

definition rewritable :: "(string \<times> string) list \<Rightarrow> piece list \<Rightarrow> bool" where
  "rewritable tbl doc =
     (list_all piece_ok doc \<and> separated doc
      \<and> (\<forall>u \<in> fst ` set tbl.
            plain_asset_url u
            \<and> (\<forall>rp \<in> snd ` set tbl. \<not> takes_for u rp)
            \<and> (\<forall>p \<in> set doc. \<forall>v \<in> set (refs p). v = u \<or> \<not> takes_for u v))
      \<and> (\<forall>rp \<in> snd ` set tbl. plain_ref rp \<and> CHR ''$'' \<notin> set rp))"

text \<open>
  Notions of the proofs. \<open>head_at s\<close>: one of the three patterns can start at the front
  of \<open>s\<close>; \<open>quiet_run x rest\<close>: none starts inside \<open>x\<close> when \<open>rest\<close> follows; a pattern is
  \<open>headed\<close> when it matches only where \<open>head_at\<close> holds. \<open>cpat u\<close> is the pattern of a plain
  URL. The three passes for one asset are told apart by their \<open>kind\<close>.
\<close>

definition head_at :: "string \<Rightarrow> bool" where
  "head_at s = (startsWith s ''src='' \<or> startsWith s ''href='' \<or> startsWith s ''url('')"

definition quiet_run :: "string \<Rightarrow> string \<Rightarrow> bool" where
  "quiet_run x rest = (\<forall>i<length x. \<not> head_at (drop i x @ rest))"

abbreviation cpat :: "string \<Rightarrow> pattern" where
  "cpat u \<equiv> map (\<lambda>c. if c = CHR ''.'' then One AnyChar else One (Lit c)) u"

definition headed :: "pattern \<Rightarrow> bool" where
  "headed pat = (\<forall>s. match_here pat s \<noteq> None \<longrightarrow> head_at s)"

datatype kind = KSrc | KHref | KCss

fun kind_pattern :: "kind \<Rightarrow> pattern \<Rightarrow> pattern" where
  "kind_pattern KSrc p = src_pattern p"
| "kind_pattern KHref p = href_pattern p"
| "kind_pattern KCss p = url_pattern p"

fun kind_rep :: "kind \<Rightarrow> string \<Rightarrow> string" where
  "kind_rep KSrc rp = ''src='' @ [dq] @ rp @ [dq]"
| "kind_rep KHref rp = ''href='' @ [dq] @ rp @ [dq]"
| "kind_rep KCss rp = ''url('' @ [sq] @ rp @ [sq] @ '')''"

fun piece_kind :: "piece \<Rightarrow> kind option" where
  "piece_kind (Text t) = None"
| "piece_kind (Src q v q') = Some KSrc"
| "piece_kind (Href q v q') = Some KHref"
| "piece_kind (Css oq v oq') = Some KCss"

definition hits :: "kind \<Rightarrow> string \<Rightarrow> piece \<Rightarrow> bool" where
  "hits k u p = (piece_kind p = Some k \<and> refs p = [u])"

fun kind_piece :: "kind \<Rightarrow> string \<Rightarrow> piece" where
  "kind_piece KSrc rp = Src dq rp dq"
| "kind_piece KHref rp = Href dq rp dq"
| "kind_piece KCss rp = Css [sq] rp [sq]"

definition rewrite_kind :: "kind \<Rightarrow> string \<Rightarrow> string \<Rightarrow> piece \<Rightarrow> piece" where
  "rewrite_kind k u rp p = (if hits k u p then kind_piece k rp else p)"

text \<open>
  An example for the builder: the manifest \<open>cases_manifest\<close> on a disk where the raw
  page \<open>pages/cases.html\<close> and the asset file exist, and a page made of seven pieces.
\<close>

definition cases_record :: page_record where
  "cases_record = \<lparr>assets = [x_asset], rawHtml = Some ''pages/cases.html'', error = None\<rparr>"

definition cases_env :: build_env where
  \<open>cases_env =
     \<lparr>b_new_URL = http_url, b_engine = (\<lambda>source rep s. None),
      read_manifest = Some cases_manifest, prepare_ok = True,
      read_file = (\<lambda>p. if p = ''raw_download/pages/cases.html'' then Some ''<img src="https://cdn/x.png">''
                       else if p = ''raw_download/assets/x.png'' then Some ''PNG'' else None),
      disk_ok = (\<lambda>p. True)\<rparr>\<close>

definition gallery :: "piece list" where
  \<open>gallery =
     [Text ''<img '', Src dq ''https://cdn/x.png'' dq,
      Text ''><a '', Href sq ''https://cdn/y.png'' sq,
      Text ''>y</a><div style="background:'', Css [] ''https://cdn/x.png'' [],
      Text ''"></div>'']\<close>

section \<open>Facts about the string operations\<close>

lemma startsWith_iff: "startsWith s p \<longleftrightarrow> (\<exists>rest. s = p @ rest)"
  by (induction s p rule: startsWith.induct) auto

lemma includes_iff: "str_includes s d \<longleftrightarrow> (\<exists>pre post. s = pre @ d @ post)"
proof (induction s)
  case Nil
  then show ?case by simp
next
  case (Cons c s)
  show ?case
  proof
    assume "str_includes (c # s) d"
    then consider "startsWith (c # s) d" | "str_includes s d" by auto
    then show "\<exists>pre post. c # s = pre @ d @ post"
    proof cases
      case 1
      then obtain rest where "c # s = d @ rest" by (auto simp: startsWith_iff)
      then have "c # s = [] @ d @ rest" by simp
      then show ?thesis by blast
    next
      case 2
      then obtain pre post where "s = pre @ d @ post" using Cons.IH by auto
      then have "c # s = (c # pre) @ d @ post" by simp
      then show ?thesis by blast
    qed
  next
    assume "\<exists>pre post. c # s = pre @ d @ post"
    then obtain pre post where eq: "c # s = pre @ d @ post" by auto
    show "str_includes (c # s) d"
    proof (cases pre)
      case Nil
      then have "startsWith (c # s) d" using eq by (auto simp: startsWith_iff)
      then show ?thesis by simp
    next
      case (Cons a pre')
      then have "s = pre' @ d @ post" using eq by simp
      then have "str_includes s d" using Cons.IH by auto
      then show ?thesis by simp
    qed
  qed
qed

section \<open>The domain filter is total and a containment test\<close>

text \<open>
  Claim C5. \<open>isAllowedDomain\<close> (and its twin \<open>isWebflowAsset\<close>) is a total
  boolean function: on a string the parser rejects it is false, and on a string that
  parses it is true exactly when the hostname contains an entry of the allow-list as
  a contiguous substring.
\<close>

theorem isAllowed_total_contains:
  "(new_URL u = None \<longrightarrow> \<not> isAllowedDomain new_URL cfg u \<and> \<not> isWebflowAsset new_URL u) \<and>
   (\<forall>parsed. new_URL u = Some parsed \<longrightarrow>
      (isAllowedDomain new_URL cfg u \<longleftrightarrow>
         (\<exists>d \<in> set (allowedDomains cfg). \<exists>pre post. hostname parsed = pre @ d @ post)) \<and>
      (isWebflowAsset new_URL u \<longleftrightarrow>
         (\<exists>d \<in> set WEBFLOW_DOMAINS. \<exists>pre post. hostname parsed = pre @ d @ post)))"
  by (auto simp: isAllowedDomain_def isWebflowAsset_def list_ex_iff includes_iff)

theorem isAllowed_total_contains_witness:
  "http_url ''not a url'' = None
   \<and> \<not> isAllowedDomain http_url \<lparr>startUrl = ''https://a.com'', allowedDomains = [''a.com''], outputDir = ''out''\<rparr> ''not a url''
   \<and> http_url ''https://a.com/x'' = Some \<lparr>hostname = ''a.com'', pathname = ''/x''\<rparr>
   \<and> isAllowedDomain http_url \<lparr>startUrl = ''https://a.com'', allowedDomains = [''a.com''], outputDir = ''out''\<rparr> ''https://a.com/x''
   \<and> http_url ''https://evil.com'' = Some \<lparr>hostname = ''evil.com'', pathname = ''/''\<rparr>
   \<and> \<not> isAllowedDomain http_url \<lparr>startUrl = ''https://a.com'', allowedDomains = [''a.com''], outputDir = ''out''\<rparr> ''https://evil.com''"
proof -
  let ?cfg = "\<lparr>startUrl = ''https://a.com'', allowedDomains = [''a.com''], outputDir = ''out''\<rparr>"
  have n: "http_url ''not a url'' = None"
    by code_simp
  have a: "http_url ''https://a.com/x'' = Some \<lparr>hostname = ''a.com'', pathname = ''/x''\<rparr>"
    by code_simp
  have e: "http_url ''https://evil.com'' = Some \<lparr>hostname = ''evil.com'', pathname = ''/''\<rparr>"
    by code_simp
  have in_a: "\<exists>d \<in> set (allowedDomains ?cfg). \<exists>pre post. ''a.com'' = pre @ d @ post"
    using includes_iff [of "''a.com''" "''a.com''"] by simp
  have not_e: "\<not> (\<exists>d \<in> set (allowedDomains ?cfg). \<exists>pre post. ''evil.com'' = pre @ d @ post)"
    using includes_iff [of "''evil.com''" "''a.com''"] by simp
  have r1: "\<not> isAllowedDomain http_url ?cfg ''not a url''"
    using isAllowed_total_contains [of http_url "''not a url''" ?cfg] n by blast
  have r2: "isAllowedDomain http_url ?cfg ''https://a.com/x''"
    using isAllowed_total_contains [of http_url "''https://a.com/x''" ?cfg] a in_a by simp
  have r3: "\<not> isAllowedDomain http_url ?cfg ''https://evil.com''"
    using isAllowed_total_contains [of http_url "''https://evil.com''" ?cfg] e not_e by simp
  show ?thesis
    using n a e r1 r2 r3 by blast
qed

section \<open>The retrying downloader\<close>

lemma fetch_count_simps:
  "fetch_count [] = 0"
  "fetch_count (Fetch u # tr) = Suc (fetch_count tr)"
  "fetch_count (FileWritten p # tr) = fetch_count tr"
  "fetch_count (Delay a b # tr) = fetch_count tr"
  "fetch_count (Processing u # tr) = fetch_count tr"
  "fetch_count (tr @ tr') = fetch_count tr + fetch_count tr'"
  by (simp_all add: fetch_count_def)

lemma download_first:
  assumes "attempt_ok env u (fetch_count tr)"
  shows "webflow_downloadAsset env u tr = (Some (make_asset (wf_md5 env) u),
     tr @ [Fetch u, FileWritten (path_join ASSETS_DIR (asset_hash (wf_md5 env) u @ asset_ext u)),
           Delay 500 1500])"
  using assms by (simp add: webflow_downloadAsset_def attempt_ok_def Let_def)

lemma download_second:
  assumes "\<not> attempt_ok env u (fetch_count tr)" "attempt_ok env u (fetch_count tr + 1)"
  shows "webflow_downloadAsset env u tr = (Some (make_asset (wf_md5 env) u),
     tr @ [Fetch u, Delay 2000 5000, Fetch u,
           FileWritten (path_join ASSETS_DIR (asset_hash (wf_md5 env) u @ asset_ext u)),
           Delay 500 1500])"
  using assms by (simp add: webflow_downloadAsset_def attempt_ok_def fetch_count_simps Let_def)

lemma download_third:
  assumes "\<not> attempt_ok env u (fetch_count tr)" "\<not> attempt_ok env u (fetch_count tr + 1)"
     "attempt_ok env u (fetch_count tr + 2)"
  shows "webflow_downloadAsset env u tr = (Some (make_asset (wf_md5 env) u),
     tr @ [Fetch u, Delay 2000 5000, Fetch u, Delay 4000 10000, Fetch u,
       FileWritten (path_join ASSETS_DIR (asset_hash (wf_md5 env) u @ asset_ext u)), Delay 500 1500])"
  using assms
  by (simp add: webflow_downloadAsset_def attempt_ok_def fetch_count_simps Let_def)

lemma download_never:
  assumes "\<not> attempt_ok env u (fetch_count tr)" "\<not> attempt_ok env u (fetch_count tr + 1)"
     "\<not> attempt_ok env u (fetch_count tr + 2)"
  shows "webflow_downloadAsset env u tr = (None,
     tr @ [Fetch u, Delay 2000 5000, Fetch u, Delay 4000 10000, Fetch u])"
  using assms
  by (simp add: webflow_downloadAsset_def attempt_ok_def fetch_count_simps Let_def)

lemma crawler_download_fails:
  assumes "map_of (downloadedAssets st) u = None" "\<not> get_ok cenv (fetch_count (events st)) u"
  shows "crawler_downloadAsset cfg cenv u st =
     (u, st\<lparr>events := events st @ [Fetch u], failedUrls := set_add u (failedUrls st)\<rparr>)"
  using assms by (simp add: crawler_downloadAsset_def asset_failed_def)

lemma x_png_webflow: "isWebflowAsset http_url x_png"
  unfolding x_png_def by code_simp

text \<open>
  Claim C3, as the code has it. In \<open>webflow-crawler.js\<close> a download is tried up to three
  times. After the failed attempt number \<open>k\<close> (\<open>k\<close> is 1 or 2) the run waits a random time
  between \<open>2000 * k\<close> and \<open>5000 * k\<close> milliseconds. A download that succeeds at the third
  attempt returns its \<open>AssetRef\<close> after exactly three calls of \<open>fetch\<close>. A download that
  fails three times returns \<open>null\<close> after exactly three calls, and the download loop of
  the page leaves the manifest as it was: this crawler has no failed set. The failed
  set is \<open>crawler.js\<close>'s, whose downloader makes one request and, when it fails, adds
  the URL to \<open>failedUrls\<close> and returns the URL.
\<close>

theorem webflow_retry_policy:
  "(attempt_ok env u (fetch_count tr) \<longrightarrow>
      webflow_downloadAsset env u tr = (Some (make_asset (wf_md5 env) u),
        tr @ [Fetch u, FileWritten (path_join ASSETS_DIR (asset_hash (wf_md5 env) u @ asset_ext u)),
              Delay 500 1500])) \<and>
   (\<not> attempt_ok env u (fetch_count tr) \<and> attempt_ok env u (fetch_count tr + 1) \<longrightarrow>
      webflow_downloadAsset env u tr = (Some (make_asset (wf_md5 env) u),
        tr @ [Fetch u, Delay 2000 5000, Fetch u,
              FileWritten (path_join ASSETS_DIR (asset_hash (wf_md5 env) u @ asset_ext u)),
              Delay 500 1500])) \<and>
   (\<not> attempt_ok env u (fetch_count tr) \<and> \<not> attempt_ok env u (fetch_count tr + 1)
      \<and> attempt_ok env u (fetch_count tr + 2) \<longrightarrow>
      webflow_downloadAsset env u tr = (Some (make_asset (wf_md5 env) u),
        tr @ [Fetch u, Delay 2000 5000, Fetch u, Delay 4000 10000, Fetch u,
              FileWritten (path_join ASSETS_DIR (asset_hash (wf_md5 env) u @ asset_ext u)),
              Delay 500 1500])) \<and>
   (\<not> attempt_ok env u (fetch_count tr) \<and> \<not> attempt_ok env u (fetch_count tr + 1)
      \<and> \<not> attempt_ok env u (fetch_count tr + 2) \<longrightarrow>
      webflow_downloadAsset env u tr =
        (None, tr @ [Fetch u, Delay 2000 5000, Fetch u, Delay 4000 10000, Fetch u])
      \<and> fst (download_page_assets env page [u] (m, tr)) = m) \<and>
   (map_of (downloadedAssets st) u = None \<and> \<not> get_ok cenv (fetch_count (events st)) u \<longrightarrow>
      crawler_downloadAsset cfg cenv u st =
        (u, st\<lparr>events := events st @ [Fetch u], failedUrls := set_add u (failedUrls st)\<rparr>))"
proof (intro conjI impI)
  assume "attempt_ok env u (fetch_count tr)"
  then show "webflow_downloadAsset env u tr = (Some (make_asset (wf_md5 env) u),
        tr @ [Fetch u, FileWritten (path_join ASSETS_DIR (asset_hash (wf_md5 env) u @ asset_ext u)),
              Delay 500 1500])"
    by (rule download_first)
next
  assume "\<not> attempt_ok env u (fetch_count tr) \<and> attempt_ok env u (fetch_count tr + 1)"
  then show "webflow_downloadAsset env u tr = (Some (make_asset (wf_md5 env) u),
        tr @ [Fetch u, Delay 2000 5000, Fetch u,
              FileWritten (path_join ASSETS_DIR (asset_hash (wf_md5 env) u @ asset_ext u)),
              Delay 500 1500])"
    using download_second by blast
next
  assume "\<not> attempt_ok env u (fetch_count tr) \<and> \<not> attempt_ok env u (fetch_count tr + 1)
      \<and> attempt_ok env u (fetch_count tr + 2)"
  then show "webflow_downloadAsset env u tr = (Some (make_asset (wf_md5 env) u),
        tr @ [Fetch u, Delay 2000 5000, Fetch u, Delay 4000 10000, Fetch u,
              FileWritten (path_join ASSETS_DIR (asset_hash (wf_md5 env) u @ asset_ext u)),
              Delay 500 1500])"
    using download_third by blast
next
  assume a: "\<not> attempt_ok env u (fetch_count tr) \<and> \<not> attempt_ok env u (fetch_count tr + 1)
      \<and> \<not> attempt_ok env u (fetch_count tr + 2)"
  then show n: "webflow_downloadAsset env u tr =
        (None, tr @ [Fetch u, Delay 2000 5000, Fetch u, Delay 4000 10000, Fetch u])"
    using download_never by blast
  show "fst (download_page_assets env page [u] (m, tr)) = m"
    by (simp add: n)
next
  assume "map_of (downloadedAssets st) u = None \<and> \<not> get_ok cenv (fetch_count (events st)) u"
  then show "crawler_downloadAsset cfg cenv u st =
        (u, st\<lparr>events := events st @ [Fetch u], failedUrls := set_add u (failedUrls st)\<rparr>)"
    using crawler_download_fails by blast
qed

theorem webflow_retry_policy_witness:
  "webflow_downloadAsset wf_flaky x_png [] = (Some (make_asset toy_digest x_png),
     [Fetch x_png, Delay 2000 5000, Fetch x_png, Delay 4000 10000, Fetch x_png,
      FileWritten (path_join ASSETS_DIR (asset_hash toy_digest x_png @ asset_ext x_png)),
      Delay 500 1500])
   \<and> webflow_downloadAsset wf_offline x_png [] =
       (None, [Fetch x_png, Delay 2000 5000, Fetch x_png, Delay 4000 10000, Fetch x_png])
   \<and> crawler_downloadAsset config (cr_online\<lparr>get_ok := (\<lambda>n u. False)\<rparr>) x_png initial_state =
       (x_png, initial_state\<lparr>events := [Fetch x_png], failedUrls := [x_png]\<rparr>)"
proof -
  have f: "\<not> attempt_ok wf_flaky x_png (fetch_count []) \<and> \<not> attempt_ok wf_flaky x_png (fetch_count [] + 1)
      \<and> attempt_ok wf_flaky x_png (fetch_count [] + 2)"
    by (simp add: attempt_ok_def wf_flaky_def response_ok_def fetch_count_simps)
  have o: "\<not> attempt_ok wf_offline x_png (fetch_count []) \<and> \<not> attempt_ok wf_offline x_png (fetch_count [] + 1)
      \<and> \<not> attempt_ok wf_offline x_png (fetch_count [] + 2)"
    by (simp add: attempt_ok_def wf_offline_def response_ok_def)
  have c: "map_of (downloadedAssets initial_state) x_png = None
      \<and> \<not> get_ok (cr_online\<lparr>get_ok := (\<lambda>n u. False)\<rparr>) (fetch_count (events initial_state)) x_png"
    by (simp add: initial_state_def)
  have md: "wf_md5 wf_flaky = toy_digest" "wf_md5 wf_offline = toy_digest"
    by (simp_all add: wf_flaky_def wf_offline_def)
  show ?thesis
    using webflow_retry_policy [where env = wf_flaky and u = x_png and tr = "[]"] f
      webflow_retry_policy [where env = wf_offline and u = x_png and tr = "[]"] o
      webflow_retry_policy [where cenv = "cr_online\<lparr>get_ok := (\<lambda>n u. False)\<rparr>" and u = x_png
         and st = initial_state and cfg = config] c
    by (simp add: md initial_state_def set_add_def)
qed

text \<open>
  The claim as stated fails in the run \<open>wf_offline\<close>: the three attempts for \<open>x.png\<close> fail,
  the result is \<open>null\<close>, and the manifest of the finished run records the URL nowhere.
\<close>

theorem failed_download_leaves_no_record:
  "fst (webflow_downloadAsset wf_offline x_png []) = None
   \<and> fetch_count (snd (webflow_downloadAsset wf_offline x_png [])) = 3
   \<and> x_png \<notin> set (recorded_urls (fst (webflow_main wf_offline [''https://apply.agency/''])))"
proof -
  have o: "\<not> attempt_ok wf_offline x_png n" for n
    by (simp add: attempt_ok_def wf_offline_def response_ok_def)
  have d: "webflow_downloadAsset wf_offline x_png [] =
       (None, [Fetch x_png, Delay 2000 5000, Fetch x_png, Delay 4000 10000, Fetch x_png])"
    using download_never [of wf_offline x_png "[]"] o by simp
  have l: "load wf_offline u = Loaded [x_png] Done" "wf_new_URL wf_offline = http_url" for u
    by (simp_all add: wf_offline_def)
  show ?thesis
    by (simp add: d fetch_count_simps webflow_main_def empty_manifest_def l array_from_set_def
        set_add_def x_png_webflow recorded_urls_def set_rawHtml_def)
qed

section \<open>Local paths of assets\<close>

lemma length_hex_digits: "length (hex_digits n k) = n"
  by (induction n arbitrary: k) auto

lemma hex_digit_inj:
  assumes "i < 16" "j < 16" "''0123456789abcdef'' ! i = ''0123456789abcdef'' ! j"
  shows "i = j"
proof -
  have d: "distinct ''0123456789abcdef''" by simp
  have l: "length ''0123456789abcdef'' = 16" by simp
  show ?thesis using assms nth_eq_iff_index_eq [OF d, of i j] l by simp
qed

lemma hex_digits_inj:
  "hex_digits n k = hex_digits n k' \<Longrightarrow> k mod 16 ^ n = k' mod 16 ^ n"
proof (induction n arbitrary: k k')
  case 0
  then show ?case by simp
next
  case (Suc n)
  from Suc.prems have a: "hex_digits n (k div 16) = hex_digits n (k' div 16)"
    and b: "''0123456789abcdef'' ! (k mod 16) = ''0123456789abcdef'' ! (k' mod 16)"
    by auto
  have c: "k mod 16 = k' mod 16"
    using hex_digit_inj [OF _ _ b] by simp
  have d: "k div 16 mod 16 ^ n = k' div 16 mod 16 ^ n"
    using Suc.IH [OF a] .
  have "k mod (16 * 16 ^ n) = 16 * (k div 16 mod 16 ^ n) + k mod 16" for k :: nat
    by (simp add: mod_mult2_eq)
  then show ?case using c d by simp
qed

lemma digest_hex_inj: "digest_hex w = digest_hex w' \<Longrightarrow> w = w'"
proof -
  assume "digest_hex w = digest_hex w'"
  then have "unat w mod 16 ^ 32 = unat w' mod 16 ^ 32"
    unfolding digest_hex_def by (rule hex_digits_inj)
  moreover have "unat w < 16 ^ 32" "unat w' < 16 ^ 32"
    using unsigned_less [of w] unsigned_less [of w'] by simp_all
  ultimately have "unat w = unat w'" by simp
  then show ?thesis by (simp add: word_unat_eq_iff)
qed

lemma hex_digits_no_slash: "CHR ''/'' \<notin> set (hex_digits n k)"
proof (induction n arbitrary: k)
  case 0
  then show ?case by simp
next
  case (Suc n)
  have "k mod 16 < 16" by simp
  then have "''0123456789abcdef'' ! (k mod 16) \<in> set ''0123456789abcdef''"
    by (intro nth_mem) simp
  then have "''0123456789abcdef'' ! (k mod 16) \<noteq> CHR ''/''" by auto
  then show ?case using Suc.IH by simp
qed

lemma split_on_no_sep: "sep \<notin> set x \<Longrightarrow> split_on sep x = [x]"
  by (induction x) auto

lemma split_on_append_sep:
  "sep \<notin> set x \<Longrightarrow> split_on sep (x @ sep # y) = x # split_on sep y"
  by (induction x) auto

lemma basename_no_slash: "CHR ''/'' \<notin> set (basename_part p)"
  unfolding basename_part_def using set_takeWhileD by fastforce

lemma extname_no_slash: "CHR ''/'' \<notin> set (path_extname p)"
proof -
  have "set (takeWhile (\<lambda>c. c \<noteq> CHR ''.'') (rev (basename_part p))) \<subseteq> set (basename_part p)"
    using set_takeWhileD by fastforce
  then show ?thesis
    using basename_no_slash [of p] by (auto simp: path_extname_def Let_def)
qed

lemma asset_ext_no_slash: "CHR ''/'' \<notin> set (asset_ext u)"
  using extname_no_slash [of u] by (simp add: asset_ext_def)

lemma path_join_assets:
  assumes "CHR ''/'' \<notin> set x" "length x > 2"
  shows "path_join ''assets'' x = ''assets/'' @ x"
proof -
  have x: "x \<noteq> []" "x \<noteq> ''.''" "x \<noteq> ''..''" using assms by auto
  have s: "split_on CHR ''/'' (''assets'' @ CHR ''/'' # x) = [''assets'', x]"
    using split_on_append_sep [of "CHR ''/''" "''assets''" x] split_on_no_sep [OF assms(1)] by simp
  have l: "last (''assets/'' @ x) \<noteq> CHR ''/''"
    using x(1) assms(1) by (metis last_appendR last_in_set)
  show ?thesis
    using x s l by (simp add: path_join_def path_normalize_def)
qed

lemma make_asset_localPath:
  "localPath (make_asset md5 u) = ''assets/'' @ digest_hex (md5 u) @ asset_ext u"
proof -
  have "CHR ''/'' \<notin> set (digest_hex (md5 u) @ asset_ext u)"
    using hex_digits_no_slash asset_ext_no_slash by (simp add: digest_hex_def)
  moreover have "length (digest_hex (md5 u) @ asset_ext u) > 2"
    by (simp add: digest_hex_def length_hex_digits)
  ultimately show ?thesis
    by (simp add: make_asset_def asset_hash_def path_join_assets)
qed

lemma localPath_eq_imp:
  assumes "localPath (make_asset md5 u) = localPath (make_asset md5 v)"
  shows "md5 u = md5 v \<and> asset_ext u = asset_ext v"
proof -
  from assms have e: "digest_hex (md5 u) @ asset_ext u = digest_hex (md5 v) @ asset_ext v"
    by (simp add: make_asset_localPath)
  have "length (digest_hex (md5 u)) = length (digest_hex (md5 v))"
    by (simp add: digest_hex_def length_hex_digits)
  with e have "digest_hex (md5 u) = digest_hex (md5 v)" "asset_ext u = asset_ext v"
    by simp_all
  then show ?thesis using digest_hex_inj by blast
qed

lemma downloadAsset_from_Some:
  "downloadAsset_from env u retries attempt tr = (Some r, tr') \<Longrightarrow> r = make_asset (wf_md5 env) u"
proof (induction env u retries attempt tr rule: downloadAsset_from.induct)
  case (1 env u retries attempt tr)
  show ?case
  proof (cases "attempt \<le> retries")
    case False
    then show ?thesis using "1.prems" by simp
  next
    case le: True
    show ?thesis
    proof (cases "response_ok (fetch_status env (fetch_count tr) u) \<and>
        body_saved env (path_join ASSETS_DIR (asset_hash (wf_md5 env) u @ asset_ext u))")
      case True
      then show ?thesis using "1.prems" le by (simp add: Let_def)
    next
      case ko: False
      show ?thesis
      proof (cases "attempt = retries")
        case True
        then show ?thesis using "1.prems" le ko by (simp add: Let_def)
      next
        case False
        then have "downloadAsset_from env u retries (attempt + 1)
            ((tr @ [Fetch u]) @ [Delay (2000 * attempt) (5000 * attempt)]) = (Some r, tr')"
          using "1.prems" le ko by (simp add: Let_def)
        then show ?thesis
          using "1.IH" [OF le refl refl ko False] by simp
      qed
    qed
  qed
qed

lemma webflow_download_Some:
  "webflow_downloadAsset env u tr = (Some r, tr') \<Longrightarrow> r = make_asset (wf_md5 env) u"
  unfolding webflow_downloadAsset_def by (rule downloadAsset_from_Some)

lemma crawler_download_fresh:
  assumes "map_of (downloadedAssets st) u = None"
    and "crawler_downloadAsset cfg cenv u st = (p, st')"
    and "map_of (downloadedAssets st') u \<noteq> None"
  shows "\<exists>urlObj. cr_new_URL cenv u = Some urlObj \<and> p = ''assets'' @ pathname urlObj"
  using assms
  by (auto simp: crawler_downloadAsset_def asset_failed_def Let_def crawler_relativePath_def
      split: if_splits option.splits)

lemma a_png_parses:
  "http_url ''https://uploads-ssl.webflow.com/a.png'' =
     Some \<lparr>hostname = ''uploads-ssl.webflow.com'', pathname = ''/a.png''\<rparr>"
  "http_url ''https://assets.website-files.com/a.png'' =
     Some \<lparr>hostname = ''assets.website-files.com'', pathname = ''/a.png''\<rparr>"
  by code_simp+

lemma ab_png_ext:
  "asset_ext ''https://cdn.prod.website-files.com/ab.png'' = ''.png''"
  "asset_ext ''https://cdn.prod.website-files.com/ba.png'' = ''.png''"
  by code_simp+

lemma a_png_first:
  "crawler_downloadAsset config cr_online ''https://uploads-ssl.webflow.com/a.png'' initial_state =
       (''assets/a.png'',
        initial_state\<lparr>downloadedAssets := [(''https://uploads-ssl.webflow.com/a.png'', ''assets/a.png'')],
          events := [Fetch ''https://uploads-ssl.webflow.com/a.png'',
                     FileWritten (path_join (outputDir config) ''assets/a.png'')]\<rparr>)"
proof -
  have g: "get_ok cr_online n u" "file_ok cr_online q" "cr_new_URL cr_online = http_url" for n u q
    by (simp_all add: cr_online_def)
  show ?thesis
    unfolding crawler_downloadAsset_def
    by (simp add: g initial_state_def a_png_parses crawler_relativePath_def Let_def)
qed

lemma a_png_second:
  "fst (crawler_downloadAsset config cr_online ''https://assets.website-files.com/a.png''
     (initial_state\<lparr>downloadedAssets := [(''https://uploads-ssl.webflow.com/a.png'', ''assets/a.png'')],
          events := [Fetch ''https://uploads-ssl.webflow.com/a.png'',
                     FileWritten (path_join (outputDir config) ''assets/a.png'')]\<rparr>)) = ''assets/a.png''"
proof -
  have g: "get_ok cr_online n u" "file_ok cr_online q" "cr_new_URL cr_online = http_url" for n u q
    by (simp_all add: cr_online_def)
  show ?thesis
    unfolding crawler_downloadAsset_def
    by (simp add: g initial_state_def a_png_parses crawler_relativePath_def Let_def)
qed

text \<open>
  Claim C4, as the code has it. The local path of an asset is a function of its URL
  alone. In \<open>webflow-crawler.js\<close> every successful download of \<open>u\<close>, whatever the
  attempt and whatever happened before, returns the path \<open>assets/\<close> followed by the
  hexadecimal MD5 digest of \<open>u\<close> and the extension of \<open>u\<close> (\<open>.bin\<close> when it has none); two
  URLs get the same path only if their digests and their extensions agree. In
  \<open>crawler.js\<close> a fresh download returns \<open>assets\<close> followed by the URL's pathname, so two
  URLs get the same path exactly when their pathnames agree.
\<close>

theorem local_path_of_url:
  "(webflow_downloadAsset env u tr = (Some r, tr') \<longrightarrow>
      r = make_asset (wf_md5 env) u
      \<and> localPath r = ''assets/'' @ digest_hex (wf_md5 env u) @ asset_ext u) \<and>
   (localPath (make_asset md5 u) = localPath (make_asset md5 v) \<longrightarrow>
      md5 u = md5 v \<and> asset_ext u = asset_ext v) \<and>
   (map_of (downloadedAssets st) u = None \<and> crawler_downloadAsset cfg cenv u st = (p, st')
      \<and> map_of (downloadedAssets st') u \<noteq> None \<longrightarrow>
      (\<exists>urlObj. cr_new_URL cenv u = Some urlObj \<and> p = ''assets'' @ pathname urlObj)) \<and>
   (crawler_relativePath a = crawler_relativePath b \<longleftrightarrow> pathname a = pathname b)"
proof (intro conjI impI)
  assume d: "webflow_downloadAsset env u tr = (Some r, tr')"
  then show r: "r = make_asset (wf_md5 env) u" by (rule webflow_download_Some)
  show "localPath r = ''assets/'' @ digest_hex (wf_md5 env u) @ asset_ext u"
    by (simp add: r make_asset_localPath)
next
  assume "localPath (make_asset md5 u) = localPath (make_asset md5 v)"
  then show "md5 u = md5 v" "asset_ext u = asset_ext v"
    using localPath_eq_imp by blast+
next
  assume "map_of (downloadedAssets st) u = None \<and> crawler_downloadAsset cfg cenv u st = (p, st')
      \<and> map_of (downloadedAssets st') u \<noteq> None"
  then show "\<exists>urlObj. cr_new_URL cenv u = Some urlObj \<and> p = ''assets'' @ pathname urlObj"
    using crawler_download_fresh by blast
next
  show "crawler_relativePath a = crawler_relativePath b \<longleftrightarrow> pathname a = pathname b"
    by (simp add: crawler_relativePath_def)
qed

theorem local_path_of_url_witness:
  "webflow_downloadAsset wf_online x_png [] =
     (Some (make_asset toy_digest x_png),
      [Fetch x_png, FileWritten (path_join ASSETS_DIR (asset_hash toy_digest x_png @ asset_ext x_png)),
       Delay 500 1500])
   \<and> localPath (make_asset toy_digest x_png) = ''assets/'' @ digest_hex (toy_digest x_png) @ asset_ext x_png
   \<and> localPath (make_asset toy_digest ''https://cdn.prod.website-files.com/ab.png'') =
       localPath (make_asset toy_digest ''https://cdn.prod.website-files.com/ba.png'')
   \<and> toy_digest ''https://cdn.prod.website-files.com/ab.png'' =
       toy_digest ''https://cdn.prod.website-files.com/ba.png''
   \<and> crawler_downloadAsset config cr_online ''https://uploads-ssl.webflow.com/a.png'' initial_state =
       (''assets/a.png'',
        initial_state\<lparr>downloadedAssets := [(''https://uploads-ssl.webflow.com/a.png'', ''assets/a.png'')],
          events := [Fetch ''https://uploads-ssl.webflow.com/a.png'',
                     FileWritten (path_join (outputDir config) ''assets/a.png'')]\<rparr>)"
proof -
  have ok: "attempt_ok wf_online x_png (fetch_count [])"
    by (simp add: attempt_ok_def wf_online_def response_ok_def)
  have md: "wf_md5 wf_online = toy_digest"
    by (simp add: wf_online_def)
  have d: "webflow_downloadAsset wf_online x_png [] =
     (Some (make_asset toy_digest x_png),
      [Fetch x_png, FileWritten (path_join ASSETS_DIR (asset_hash toy_digest x_png @ asset_ext x_png)),
       Delay 500 1500])"
    using download_first [OF ok] by (simp add: md)
  have lp: "localPath (make_asset toy_digest ''https://cdn.prod.website-files.com/ab.png'') =
       localPath (make_asset toy_digest ''https://cdn.prod.website-files.com/ba.png'')"
    by (simp add: make_asset_def asset_hash_def toy_digest_def ab_png_ext)
  have "localPath (make_asset toy_digest x_png) =
      ''assets/'' @ digest_hex (wf_md5 wf_online x_png) @ asset_ext x_png"
    using local_path_of_url [where env = wf_online and u = x_png and tr = "[]"
        and r = "make_asset toy_digest x_png"
        and tr' = "[Fetch x_png, FileWritten (path_join ASSETS_DIR (asset_hash toy_digest x_png @ asset_ext x_png)), Delay 500 1500]"]
      d
    by blast
  then have w1: "localPath (make_asset toy_digest x_png) =
      ''assets/'' @ digest_hex (toy_digest x_png) @ asset_ext x_png"
    by (simp only: md)
  have w2: "toy_digest ''https://cdn.prod.website-files.com/ab.png'' =
       toy_digest ''https://cdn.prod.website-files.com/ba.png''"
    using local_path_of_url [where ?md5.0 = toy_digest and u = "''https://cdn.prod.website-files.com/ab.png''"
        and v = "''https://cdn.prod.website-files.com/ba.png''"] lp
    by blast
  show ?thesis
    by (intro conjI) (rule d w1 lp w2 a_png_first)+
qed

text \<open>
  The claim as stated fails in \<open>crawler.js\<close>: two different URLs with the same pathname
  on two allowed hosts are both saved to \<open>assets/a.png\<close>.
\<close>

theorem crawler_local_path_collision:
  "''https://uploads-ssl.webflow.com/a.png'' \<noteq> ''https://assets.website-files.com/a.png''
   \<and> fst (crawler_downloadAsset config cr_online ''https://uploads-ssl.webflow.com/a.png''
          initial_state) = ''assets/a.png''
   \<and> fst (crawler_downloadAsset config cr_online ''https://assets.website-files.com/a.png''
          (snd (crawler_downloadAsset config cr_online ''https://uploads-ssl.webflow.com/a.png''
             initial_state))) = ''assets/a.png''"
  by (simp add: a_png_first a_png_second)

section \<open>The download cache\<close>




lemma wf_online_first:
  "webflow_downloadAsset wf_online x_png tr =
     (Some (make_asset toy_digest x_png),
      tr @ [Fetch x_png, FileWritten (path_join ASSETS_DIR (asset_hash toy_digest x_png @ asset_ext x_png)),
       Delay 500 1500])"
proof -
  have ok: "attempt_ok wf_online x_png (fetch_count tr)"
    by (simp add: attempt_ok_def wf_online_def response_ok_def)
  show ?thesis
    using download_first [OF ok] by (simp add: wf_online_def)
qed




section \<open>The manifest of the fixed-list crawler\<close>

lemma downloadAsset_from_trace:
  "downloadAsset_from env u retries attempt tr = (res, tr') \<Longrightarrow>
   \<exists>ext. tr' = tr @ ext
     \<and> (attempt \<le> retries \<longrightarrow> Fetch u \<in> set ext)
     \<and> (res \<noteq> None \<longrightarrow>
          FileWritten (path_join ASSETS_DIR (asset_hash (wf_md5 env) u @ asset_ext u)) \<in> set ext)"
proof (induction env u retries attempt tr rule: downloadAsset_from.induct)
  case (1 env u retries attempt tr)
  show ?case
  proof (cases "attempt \<le> retries")
    case False
    then show ?thesis using "1.prems" by simp
  next
    case le: True
    show ?thesis
    proof (cases "response_ok (fetch_status env (fetch_count tr) u) \<and>
        body_saved env (path_join ASSETS_DIR (asset_hash (wf_md5 env) u @ asset_ext u))")
      case True
      then show ?thesis using "1.prems" le by (auto simp: Let_def)
    next
      case ko: False
      show ?thesis
      proof (cases "attempt = retries")
        case True
        then show ?thesis using "1.prems" le ko by (auto simp: Let_def)
      next
        case False
        then have "downloadAsset_from env u retries (attempt + 1)
            ((tr @ [Fetch u]) @ [Delay (2000 * attempt) (5000 * attempt)]) = (res, tr')"
          using "1.prems" le ko by (simp add: Let_def)
        from "1.IH" [OF le refl refl ko False this]
        obtain ext where e: "tr' = ((tr @ [Fetch u]) @ [Delay (2000 * attempt) (5000 * attempt)]) @ ext"
          and f: "res \<noteq> None \<longrightarrow>
            FileWritten (path_join ASSETS_DIR (asset_hash (wf_md5 env) u @ asset_ext u)) \<in> set ext"
          by blast
        let ?ext = "[Fetch u, Delay (2000 * attempt) (5000 * attempt)] @ ext"
        have "tr' = tr @ ?ext" using e by simp
        moreover have "Fetch u \<in> set ?ext" by simp
        moreover have "res \<noteq> None \<longrightarrow>
            FileWritten (path_join ASSETS_DIR (asset_hash (wf_md5 env) u @ asset_ext u)) \<in> set ?ext"
          using f by simp
        ultimately show ?thesis by blast
      qed
    qed
  qed
qed

lemma webflow_download_trace:
  assumes "webflow_downloadAsset env u tr = (res, tr')"
  shows "set tr \<subseteq> set tr'" "Fetch u \<in> set tr'"
    "res \<noteq> None \<Longrightarrow>
       FileWritten (path_join ASSETS_DIR (asset_hash (wf_md5 env) u @ asset_ext u)) \<in> set tr'"
  using downloadAsset_from_trace [of env u 3 1 tr res tr'] assms
  unfolding webflow_downloadAsset_def by auto

lemma wf_inv_trace:
  "wf_inv env (m, tr) \<Longrightarrow> set tr \<subseteq> set tr' \<Longrightarrow> wf_inv env (m, tr')"
  unfolding wf_inv_def by auto

lemma wf_inv_record_asset:
  assumes "wf_inv env (m, tr)"
    and "FileWritten (path_join ASSETS_DIR (asset_hash (wf_md5 env) u @ asset_ext u)) \<in> set tr"
  shows "wf_inv env (record_asset url (make_asset (wf_md5 env) u) m, tr)"
proof -
  let ?r = "make_asset (wf_md5 env) u"
  have ou: "originalUrl ?r = u" by (simp add: make_asset_def)
  have tab: "map_of (asset_table (record_asset url ?r m)) k =
      (if k = u then Some ?r else map_of (asset_table m) k)" for k
    by (simp add: record_asset_def ou update_conv')
  have old: "map_of (asset_table (record_asset url ?r m)) (originalUrl a) = Some a"
    if "map_of (asset_table m) (originalUrl a) = Some a" for a
  proof (cases "originalUrl a = u")
    case True
    then have "a = ?r" using assms(1) that unfolding wf_inv_def by auto
    then show ?thesis by (simp add: tab ou)
  next
    case False
    then show ?thesis using that by (simp add: tab)
  qed
  have pg: "\<forall>a \<in> set (assets pr). map_of (asset_table (record_asset url ?r m)) (originalUrl a) = Some a"
    if mp: "map_of (pages (record_asset url ?r m)) p = Some pr" for p pr
  proof (cases "p = url")
    case False
    then have "map_of (pages m) p = Some pr"
      using mp by (simp add: record_asset_def map_of_map_entry)
    then show ?thesis using assms(1) old unfolding wf_inv_def by auto
  next
    case True
    then obtain pr0 where p0: "map_of (pages m) url = Some pr0"
      and pr: "pr = pr0\<lparr>assets := assets pr0 @ [?r]\<rparr>"
      using mp by (auto simp: record_asset_def map_of_map_entry split: option.splits)
    have "\<forall>a \<in> set (assets pr0). map_of (asset_table m) (originalUrl a) = Some a"
      using assms(1) p0 unfolding wf_inv_def by auto
    then show ?thesis using old by (auto simp: pr tab ou)
  qed
  have tb: "a = make_asset (wf_md5 env) k
      \<and> FileWritten (path_join ASSETS_DIR (asset_hash (wf_md5 env) k @ asset_ext k)) \<in> set tr"
    if "map_of (asset_table (record_asset url ?r m)) k = Some a" for k a
    using that assms unfolding wf_inv_def by (auto simp: tab split: if_splits)
  have A: "\<forall>p pr. map_of (pages (record_asset url ?r m)) p = Some pr \<longrightarrow>
      (\<forall>a \<in> set (assets pr). map_of (asset_table (record_asset url ?r m)) (originalUrl a) = Some a)"
    using pg by blast
  have B: "\<forall>k a. map_of (asset_table (record_asset url ?r m)) k = Some a \<longrightarrow>
      a = make_asset (wf_md5 env) k
      \<and> FileWritten (path_join ASSETS_DIR (asset_hash (wf_md5 env) k @ asset_ext k)) \<in> set tr"
    using tb by blast
  show ?thesis
    unfolding wf_inv_def prod.case by (rule conjI [OF A B])
qed

lemma wf_inv_download_page_assets:
  "wf_inv env (m, tr) \<Longrightarrow> wf_inv env (download_page_assets env url found (m, tr))"
proof (induction found arbitrary: m tr)
  case Nil
  then show ?case by simp
next
  case (Cons asset rest)
  show ?case
  proof (cases "isWebflowAsset (wf_new_URL env) asset")
    case False
    then show ?thesis using Cons by simp
  next
    case True
    obtain res tr' where d: "webflow_downloadAsset env asset tr = (res, tr')"
      by (cases "webflow_downloadAsset env asset tr")
    have i: "wf_inv env (m, tr')"
      using wf_inv_trace [OF Cons.prems webflow_download_trace(1) [OF d]] .
    show ?thesis
    proof (cases res)
      case None
      then show ?thesis using True d Cons.IH [OF i] by simp
    next
      case (Some r)
      then have r: "r = make_asset (wf_md5 env) asset"
        using d webflow_download_Some by blast
      have "FileWritten (path_join ASSETS_DIR (asset_hash (wf_md5 env) asset @ asset_ext asset)) \<in> set tr'"
        using webflow_download_trace(3) [OF d] Some by simp
      then have "wf_inv env (record_asset url r m, tr')"
        unfolding r using wf_inv_record_asset [OF i] by blast
      then show ?thesis using True d Some Cons.IH by simp
    qed
  qed
qed

lemma wf_inv_page_fields:
  "wf_inv env (m, tr) \<Longrightarrow> wf_inv env (set_error url msg m, tr)"
  "wf_inv env (m, tr) \<Longrightarrow> wf_inv env (set_rawHtml url p m, tr)"
  unfolding wf_inv_def set_error_def set_rawHtml_def
  by (auto simp: map_of_map_entry split: option.splits)

lemma wf_inv_new_page:
  "wf_inv env (m, tr) \<Longrightarrow>
   wf_inv env (m\<lparr>pages := AList.update url \<lparr>assets = [], rawHtml = None, error = None\<rparr> (pages m)\<rparr>, tr)"
  unfolding wf_inv_def by (auto simp: update_conv')

lemma wf_inv_processPage:
  assumes "wf_inv env (m, tr)"
  shows "wf_inv env (webflow_processPage env url (m, tr))"
proof (cases "map_of (pages m) url \<noteq> None")
  case True
  then show ?thesis using assms by simp
next
  case False
  let ?m1 = "m\<lparr>pages := AList.update url \<lparr>assets = [], rawHtml = None, error = None\<rparr> (pages m)\<rparr>"
  have i1: "wf_inv env (?m1, tr)" using wf_inv_new_page [OF assms] .
  show ?thesis
  proof (cases "load env url")
    case (LoadError msg)
    then show ?thesis using False wf_inv_page_fields(1) [OF i1] by simp
  next
    case (Loaded found e)
    obtain m2 tr2 where d: "download_page_assets env url (array_from_set found) (?m1, tr) = (m2, tr2)"
      by (cases "download_page_assets env url (array_from_set found) (?m1, tr)")
    have i2: "wf_inv env (m2, tr2)"
      using wf_inv_download_page_assets [OF i1, of url "array_from_set found"] d by simp
    have i3: "wf_inv env (m2, tr2 @ ext)" for ext
      by (rule wf_inv_trace [OF i2]) simp
    let ?p = "''pages/'' @ digest_hex (wf_md5 env url) @ ''.html''"
    let ?q = "path_join PAGES_DIR (digest_hex (wf_md5 env url) @ ''.html'')"
    show ?thesis
    proof (cases e)
      case (WriteFailed msg)
      then have "webflow_processPage env url (m, tr) = (set_error url msg m2, tr2)"
        using False Loaded d by (simp add: Let_def)
      then show ?thesis using wf_inv_page_fields(1) [OF i2] by simp
    next
      case (CloseFailed msg)
      then have "webflow_processPage env url (m, tr) =
          (set_error url msg (set_rawHtml url ?p m2), tr2 @ [FileWritten ?q])"
        using False Loaded d by (simp add: Let_def)
      then show ?thesis
        using wf_inv_page_fields(1) [OF wf_inv_page_fields(2) [OF i3]] by simp
    next
      case Done
      then have "webflow_processPage env url (m, tr) =
          (set_rawHtml url ?p m2, tr2 @ [FileWritten ?q])"
        using False Loaded d by (simp add: Let_def)
      then show ?thesis
        using wf_inv_page_fields(2) [OF i3] by simp
    qed
  qed
qed

lemma wf_inv_process_targets:
  "wf_inv env st \<Longrightarrow> wf_inv env (process_targets env targets st)"
proof (induction targets arbitrary: st)
  case Nil
  then show ?case by simp
next
  case (Cons url rest)
  obtain m tr where st: "st = (m, tr)" by (cases st)
  obtain m' tr' where p: "webflow_processPage env url (m, tr) = (m', tr')"
    by (cases "webflow_processPage env url (m, tr)")
  have "wf_inv env (m', tr')"
    using wf_inv_processPage [of env m tr url] Cons.prems st p by simp
  then have "wf_inv env (m', tr' @ [Delay 3000 7000])"
    by (rule wf_inv_trace) auto
  then show ?case using Cons.IH st p by simp
qed

lemma wf_inv_main: "wf_inv env (webflow_main env targets)"
  unfolding webflow_main_def
  by (rule wf_inv_process_targets) (simp add: wf_inv_def empty_manifest_def)

lemma wf_keys_download_page_assets:
  "wf_keys m \<Longrightarrow> wf_keys (fst (download_page_assets env url found (m, tr)))"
proof (induction found arbitrary: m tr)
  case Nil
  then show ?case by simp
next
  case (Cons asset rest)
  have r: "wf_keys (record_asset url r m)" for r
    using Cons.prems by (simp add: wf_keys_def record_asset_def distinct_update distinct_map_entry)
  show ?case
    using Cons.IH [OF Cons.prems] Cons.IH [OF r]
    by (auto split: prod.splits option.splits)
qed

lemma wf_keys_processPage:
  assumes "wf_keys m"
  shows "wf_keys (fst (webflow_processPage env url (m, tr)))"
proof (cases "map_of (pages m) url \<noteq> None")
  case True
  then show ?thesis using assms by simp
next
  case False
  let ?m1 = "m\<lparr>pages := AList.update url \<lparr>assets = [], rawHtml = None, error = None\<rparr> (pages m)\<rparr>"
  have k1: "wf_keys ?m1"
    using assms by (simp add: wf_keys_def distinct_update)
  have f: "wf_keys (set_error url msg x)" "wf_keys (set_rawHtml url p x)" if "wf_keys x" for x msg p
    using that by (simp_all add: wf_keys_def set_error_def set_rawHtml_def distinct_map_entry)
  show ?thesis
  proof (cases "load env url")
    case (LoadError msg)
    then show ?thesis using False f(1) [OF k1] by simp
  next
    case (Loaded found e)
    obtain m2 tr2 where d: "download_page_assets env url (array_from_set found) (?m1, tr) = (m2, tr2)"
      by (cases "download_page_assets env url (array_from_set found) (?m1, tr)")
    have k2: "wf_keys m2"
      using wf_keys_download_page_assets [OF k1, of env url "array_from_set found" tr] d by simp
    show ?thesis
      using False Loaded d f(1) [OF k2] f(2) [OF k2] f(1) [OF f(2) [OF k2]]
      by (cases e) (simp_all add: Let_def)
  qed
qed

lemma wf_keys_process_targets:
  "wf_keys (fst st) \<Longrightarrow> wf_keys (fst (process_targets env targets st))"
proof (induction targets arbitrary: st)
  case Nil
  then show ?case by simp
next
  case (Cons url rest)
  obtain m tr where st: "st = (m, tr)" by (cases st)
  obtain m' tr' where p: "webflow_processPage env url (m, tr) = (m', tr')"
    by (cases "webflow_processPage env url (m, tr)")
  have "wf_keys m'"
    using wf_keys_processPage [of m env url tr] Cons.prems st p by simp
  then show ?case using Cons.IH [of "(m', tr' @ [Delay 3000 7000])"] st p by simp
qed

lemma wf_keys_main: "wf_keys (fst (webflow_main env targets))"
  unfolding webflow_main_def
  by (rule wf_keys_process_targets) (simp add: wf_keys_def empty_manifest_def)

lemma make_asset_originalUrl: "originalUrl (make_asset md5 u) = u"
  by (simp add: make_asset_def)

lemma wf_online_run:
  "webflow_main wf_online TARGET_PAGES =
     (\<lparr>pages =
         [(''https://apply.agency/'',
           \<lparr>assets = [make_asset toy_digest x_png],
            rawHtml = Some (''pages/'' @ digest_hex (toy_digest ''https://apply.agency/'') @ ''.html''),
            error = None\<rparr>),
          (''https://apply.agency/cases'',
           \<lparr>assets = [make_asset toy_digest x_png],
            rawHtml = Some (''pages/'' @ digest_hex (toy_digest ''https://apply.agency/cases'') @ ''.html''),
            error = None\<rparr>)],
       asset_table = [(x_png, make_asset toy_digest x_png)]\<rparr>,
      [Fetch x_png,
       FileWritten (path_join ASSETS_DIR (asset_hash toy_digest x_png @ asset_ext x_png)),
       Delay 500 1500,
       FileWritten (path_join PAGES_DIR (digest_hex (toy_digest ''https://apply.agency/'') @ ''.html'')),
       Delay 3000 7000,
       Fetch x_png,
       FileWritten (path_join ASSETS_DIR (asset_hash toy_digest x_png @ asset_ext x_png)),
       Delay 500 1500,
       FileWritten (path_join PAGES_DIR (digest_hex (toy_digest ''https://apply.agency/cases'') @ ''.html'')),
       Delay 3000 7000])"
proof -
  have l: "load wf_online u = Loaded [x_png] Done" "wf_new_URL wf_online = http_url"
    "wf_md5 wf_online = toy_digest" for u
    by (simp_all add: wf_online_def)
  show ?thesis
    by (simp add: wf_online_first webflow_main_def TARGET_PAGES_def
        empty_manifest_def l array_from_set_def set_add_def x_png_webflow set_rawHtml_def
        record_asset_def make_asset_originalUrl)
qed

text \<open>
  Claim C9. After any number of processed pages (the run over any list
  \<open>done_pages\<close>, so also over every prefix of the target list), every \<open>AssetRef\<close> in the
  list of a page record is the entry of the global table under its \<open>originalUrl\<close>, the
  same record field for field; and every entry of the global table, and with it every
  \<open>AssetRef\<close> on a page, is the \<open>AssetRef\<close> of a download that succeeded: it is the value
  the downloader returns for its URL, and its file was written in this run.
\<close>

theorem manifest_cross_reference:
  assumes "webflow_main env done_pages = (m, tr)"
  shows "(\<forall>(url, pr) \<in> set (pages m). \<forall>a \<in> set (assets pr).
            map_of (asset_table m) (originalUrl a) = Some a) \<and>
         (\<forall>(k, a) \<in> set (asset_table m).
            a = make_asset (wf_md5 env) k
            \<and> FileWritten (path_join ASSETS_DIR (asset_hash (wf_md5 env) k @ asset_ext k)) \<in> set tr)"
proof -
  have i: "wf_inv env (m, tr)"
    using wf_inv_main [of env done_pages] assms by simp
  have k: "wf_keys m"
    using wf_keys_main [of env done_pages] assms by simp
  have p: "map_of (pages m) url = Some pr" if "(url, pr) \<in> set (pages m)" for url pr
    using that k by (simp add: wf_keys_def)
  have t: "map_of (asset_table m) u = Some a" if "(u, a) \<in> set (asset_table m)" for u a
    using that k by (simp add: wf_keys_def)
  show ?thesis
    using i p t unfolding wf_inv_def by fastforce
qed

theorem manifest_cross_reference_witness:
  "map_of (asset_table (fst (webflow_main wf_online TARGET_PAGES))) x_png =
     Some (make_asset toy_digest x_png)
   \<and> (''https://apply.agency/cases'',
       \<lparr>assets = [make_asset toy_digest x_png],
        rawHtml = Some (''pages/'' @ digest_hex (toy_digest ''https://apply.agency/cases'') @ ''.html''),
        error = None\<rparr>) \<in> set (pages (fst (webflow_main wf_online TARGET_PAGES)))
   \<and> FileWritten (path_join ASSETS_DIR (asset_hash toy_digest x_png @ asset_ext x_png))
       \<in> set (snd (webflow_main wf_online TARGET_PAGES))"
proof -
  let ?pr = "\<lparr>assets = [make_asset toy_digest x_png],
        rawHtml = Some (''pages/'' @ digest_hex (toy_digest ''https://apply.agency/cases'') @ ''.html''),
        error = None\<rparr>"
  obtain m tr where r: "webflow_main wf_online TARGET_PAGES = (m, tr)"
    by (cases "webflow_main wf_online TARGET_PAGES")
  have pg: "(''https://apply.agency/cases'', ?pr) \<in> set (pages m)"
    and tb: "(x_png, make_asset toy_digest x_png) \<in> set (asset_table m)"
    using r unfolding wf_online_run by auto
  have a: "make_asset toy_digest x_png \<in> set (assets ?pr)"
    by simp
  have md: "wf_md5 wf_online = toy_digest"
    by (simp add: wf_online_def)
  note c = manifest_cross_reference [OF r]
  have "map_of (asset_table m) (originalUrl (make_asset toy_digest x_png)) =
      Some (make_asset toy_digest x_png)"
    using c pg a by blast
  then have 1: "map_of (asset_table m) x_png = Some (make_asset toy_digest x_png)"
    by (simp only: make_asset_originalUrl)
  have "FileWritten (path_join ASSETS_DIR (asset_hash (wf_md5 wf_online) x_png @ asset_ext x_png)) \<in> set tr"
    using c tb by blast
  then have 2: "FileWritten (path_join ASSETS_DIR (asset_hash toy_digest x_png @ asset_ext x_png)) \<in> set tr"
    by (simp only: md)
  show ?thesis
    using 1 2 pg by (simp add: r)
qed

section \<open>Failures of single pages and single assets\<close>

lemma set_array_from_set_aux: "set (foldl (\<lambda>acc x. set_add x acc) acc xs) = set acc \<union> set xs"
  by (induction xs arbitrary: acc) (auto simp: set_add_def)

lemma set_array_from_set: "set (array_from_set xs) = set xs"
  by (simp add: array_from_set_def set_array_from_set_aux)

lemma download_page_assets_pages:
  "download_page_assets env url found (m, tr) = (m', tr') \<Longrightarrow>
     set tr \<subseteq> set tr'
     \<and> (\<forall>a \<in> set found. isWebflowAsset (wf_new_URL env) a \<longrightarrow> Fetch a \<in> set tr')
     \<and> (\<forall>p. p \<noteq> url \<longrightarrow> map_of (pages m') p = map_of (pages m) p)
     \<and> (\<forall>pr. map_of (pages m) url = Some pr \<longrightarrow>
          (\<exists>pr'. map_of (pages m') url = Some pr' \<and> rawHtml pr' = rawHtml pr \<and> error pr' = error pr))"
proof (induction found arbitrary: m tr)
  case Nil
  then show ?case by simp
next
  case (Cons asset rest)
  show ?case
  proof (cases "isWebflowAsset (wf_new_URL env) asset")
    case False
    then have "download_page_assets env url rest (m, tr) = (m', tr')"
      using Cons.prems by simp
    from Cons.IH [OF this] False show ?thesis by simp
  next
    case True
    obtain res tr1 where d: "webflow_downloadAsset env asset tr = (res, tr1)"
      by (cases "webflow_downloadAsset env asset tr")
    have t1: "set tr \<subseteq> set tr1" "Fetch asset \<in> set tr1"
      using webflow_download_trace [OF d] by simp_all
    show ?thesis
    proof (cases res)
      case None
      then have "download_page_assets env url rest (m, tr1) = (m', tr')"
        using Cons.prems True d by simp
      from Cons.IH [OF this] t1 show ?thesis by auto
    next
      case (Some r)
      then have "download_page_assets env url rest (record_asset url r m, tr1) = (m', tr')"
        using Cons.prems True d by simp
      from Cons.IH [OF this]
      have ih: "set tr1 \<subseteq> set tr'"
        "\<forall>a \<in> set rest. isWebflowAsset (wf_new_URL env) a \<longrightarrow> Fetch a \<in> set tr'"
        "\<forall>p. p \<noteq> url \<longrightarrow> map_of (pages m') p = map_of (pages (record_asset url r m)) p"
        "\<forall>pr. map_of (pages (record_asset url r m)) url = Some pr \<longrightarrow>
          (\<exists>pr'. map_of (pages m') url = Some pr' \<and> rawHtml pr' = rawHtml pr \<and> error pr' = error pr)"
        by blast+
      have other: "p \<noteq> url \<Longrightarrow> map_of (pages (record_asset url r m)) p = map_of (pages m) p" for p
        by (simp add: record_asset_def map_of_map_entry)
      have same: "map_of (pages m) url = Some pr \<Longrightarrow>
          map_of (pages (record_asset url r m)) url = Some (pr\<lparr>assets := assets pr @ [r]\<rparr>)" for pr
        by (simp add: record_asset_def map_of_map_entry)
      have "\<exists>pr'. map_of (pages m') url = Some pr' \<and> rawHtml pr' = rawHtml pr \<and> error pr' = error pr"
        if "map_of (pages m) url = Some pr" for pr
        using ih(4) same [OF that] by fastforce
      then show ?thesis
        using ih(1,2,3) t1 other by auto
    qed
  qed
qed

lemma processPage_effect:
  assumes "webflow_processPage env url (m, tr) = (m', tr')"
  shows "set tr \<subseteq> set tr'"
    and "p \<noteq> url \<Longrightarrow> map_of (pages m') p = map_of (pages m) p"
    and "map_of (pages m) url = Some pr0 \<Longrightarrow> map_of (pages m') url = Some pr0"
    and "map_of (pages m) url = None \<Longrightarrow>
          \<exists>pr. map_of (pages m') url = Some pr \<and> page_outcome env url pr
            \<and> (\<forall>a \<in> set (page_candidates env url). Fetch a \<in> set tr')"
proof -
  let ?m1 = "m\<lparr>pages := AList.update url \<lparr>assets = [], rawHtml = None, error = None\<rparr> (pages m)\<rparr>"
  let ?p = "''pages/'' @ digest_hex (wf_md5 env url) @ ''.html''"
  let ?q = "path_join PAGES_DIR (digest_hex (wf_md5 env url) @ ''.html'')"
  have all: "set tr \<subseteq> set tr'
     \<and> (\<forall>p. p \<noteq> url \<longrightarrow> map_of (pages m') p = map_of (pages m) p)
     \<and> (\<forall>pr0. map_of (pages m) url = Some pr0 \<longrightarrow> map_of (pages m') url = Some pr0)
     \<and> (map_of (pages m) url = None \<longrightarrow>
          (\<exists>pr. map_of (pages m') url = Some pr \<and> page_outcome env url pr
            \<and> (\<forall>a \<in> set (page_candidates env url). Fetch a \<in> set tr')))"
  proof (cases "map_of (pages m) url \<noteq> None")
    case True
    then show ?thesis using assms by auto
  next
    case False
    show ?thesis
    proof (cases "load env url")
      case (LoadError msg)
      then have "m' = set_error url msg ?m1" "tr' = tr"
        using assms False by simp_all
      then show ?thesis
        using False LoadError
        by (auto simp: set_error_def map_of_map_entry update_conv' page_outcome_def page_candidates_def)
    next
      case (Loaded found e)
      obtain m2 tr2 where d: "download_page_assets env url (array_from_set found) (?m1, tr) = (m2, tr2)"
        by (cases "download_page_assets env url (array_from_set found) (?m1, tr)")
      have m1: "map_of (pages ?m1) url = Some \<lparr>assets = [], rawHtml = None, error = None\<rparr>"
        by (simp add: update_conv')
      from download_page_assets_pages [OF d]
      have tr2: "set tr \<subseteq> set tr2"
        and fetched: "\<forall>a \<in> set found. isWebflowAsset (wf_new_URL env) a \<longrightarrow> Fetch a \<in> set tr2"
        and other: "\<forall>p. p \<noteq> url \<longrightarrow> map_of (pages m2) p = map_of (pages m) p"
        and "\<exists>pr'. map_of (pages m2) url = Some pr' \<and> rawHtml pr' = None \<and> error pr' = None"
        using m1 by (auto simp: set_array_from_set update_conv')
      then obtain pr2 where pr2: "map_of (pages m2) url = Some pr2" "rawHtml pr2 = None" "error pr2 = None"
        by blast
      have cand: "\<forall>a \<in> set (page_candidates env url). Fetch a \<in> set tr2"
        using fetched Loaded by (simp add: page_candidates_def)
      show ?thesis
      proof (cases e)
        case (WriteFailed msg)
        then have "m' = set_error url msg m2" "tr' = tr2"
          using assms False Loaded d by (simp_all add: Let_def)
        then show ?thesis
          using False Loaded WriteFailed tr2 other pr2 cand
          by (auto simp: set_error_def map_of_map_entry page_outcome_def)
      next
        case (CloseFailed msg)
        then have "m' = set_error url msg (set_rawHtml url ?p m2)" "tr' = tr2 @ [FileWritten ?q]"
          using assms False Loaded d by (simp_all add: Let_def)
        then show ?thesis
          using False Loaded CloseFailed tr2 other pr2 cand
          by (auto simp: set_error_def set_rawHtml_def map_of_map_entry page_outcome_def)
      next
        case Done
        then have "m' = set_rawHtml url ?p m2" "tr' = tr2 @ [FileWritten ?q]"
          using assms False Loaded d by (simp_all add: Let_def)
        then show ?thesis
          using False Loaded Done tr2 other pr2 cand
          by (auto simp: set_rawHtml_def map_of_map_entry page_outcome_def)
      qed
    qed
  qed
  show "set tr \<subseteq> set tr'"
    and "p \<noteq> url \<Longrightarrow> map_of (pages m') p = map_of (pages m) p"
    and "map_of (pages m) url = Some pr0 \<Longrightarrow> map_of (pages m') url = Some pr0"
    and "map_of (pages m) url = None \<Longrightarrow>
          \<exists>pr. map_of (pages m') url = Some pr \<and> page_outcome env url pr
            \<and> (\<forall>a \<in> set (page_candidates env url). Fetch a \<in> set tr')"
    using all by blast+
qed

lemma wf_done_processPage:
  assumes "wf_done env (m, tr)" "webflow_processPage env url (m, tr) = (m', tr')"
  shows "wf_done env (m', tr')" and "map_of (pages m') url \<noteq> None"
    and "map_of (pages m) p \<noteq> None \<Longrightarrow> map_of (pages m') p \<noteq> None"
proof -
  note e = processPage_effect [OF assms(2)]
  have new: "map_of (pages m) url = None \<Longrightarrow>
      \<exists>pr. map_of (pages m') url = Some pr \<and> page_outcome env url pr
        \<and> (\<forall>a \<in> set (page_candidates env url). Fetch a \<in> set tr')"
    by (rule e(4))
  have "page_outcome env q pr \<and> (\<forall>a \<in> set (page_candidates env q). Fetch a \<in> set tr')"
    if mq: "map_of (pages m') q = Some pr" for q pr
  proof (cases "map_of (pages m) q")
    case (Some pr0)
    then have "map_of (pages m') q = Some pr0"
      using e(2) [of q] e(3) [of pr0] by (cases "q = url") auto
    then have "pr = pr0" using mq by simp
    then show ?thesis
      using assms(1) Some e(1) unfolding wf_done_def by auto
  next
    case None
    then have "q = url" using e(2) [of q] mq by (cases "q = url") auto
    then show ?thesis using new None mq by auto
  qed
  then show "wf_done env (m', tr')"
    unfolding wf_done_def prod.case by blast
  show "map_of (pages m') url \<noteq> None"
    using new e(3) by (cases "map_of (pages m) url") auto
  show "map_of (pages m) p \<noteq> None \<Longrightarrow> map_of (pages m') p \<noteq> None"
    using e(2) [of p] e(3) by (cases "p = url") auto
qed

lemma wf_done_trace: "wf_done env (m, tr) \<Longrightarrow> wf_done env (m, tr @ ext)"
  unfolding wf_done_def by auto

lemma wf_done_process_targets:
  assumes "wf_done env st" "process_targets env targets st = (m, tr)"
  shows "wf_done env (m, tr)
    \<and> (\<forall>url \<in> set targets. map_of (pages m) url \<noteq> None)
    \<and> (\<forall>p. map_of (pages (fst st)) p \<noteq> None \<longrightarrow> map_of (pages m) p \<noteq> None)"
  using assms
proof (induction targets arbitrary: st)
  case Nil
  then show ?case by auto
next
  case (Cons url rest)
  obtain m0 tr0 where st: "st = (m0, tr0)" by (cases st)
  obtain m1 tr1 where p: "webflow_processPage env url (m0, tr0) = (m1, tr1)"
    by (cases "webflow_processPage env url (m0, tr0)")
  have d0: "wf_done env (m0, tr0)" using Cons.prems(1) st by simp
  note s = wf_done_processPage [OF d0 p]
  have d1: "wf_done env (m1, tr1 @ [Delay 3000 7000])"
    using wf_done_trace [OF s(1)] .
  have r: "process_targets env rest (m1, tr1 @ [Delay 3000 7000]) = (m, tr)"
    using Cons.prems(2) st p by simp
  from Cons.IH [OF d1 r]
  have ih: "wf_done env (m, tr)" "\<forall>u \<in> set rest. map_of (pages m) u \<noteq> None"
    "\<forall>q. map_of (pages m1) q \<noteq> None \<longrightarrow> map_of (pages m) q \<noteq> None"
    by simp_all
  show ?case
    using ih s(2) s(3) st by auto
qed

lemma y_png_webflow: "isWebflowAsset http_url y_png"
  unfolding y_png_def by code_simp

text \<open>
  Claim C8, for \<open>webflow-crawler.js\<close>. Whatever the browser and the network do (the
  surroundings \<open>env\<close> are arbitrary, so any page may fail to load or to be saved and any
  download may fail), after the run every page of the target list has a record, and
  that record says what happened to that page (\<open>page_outcome\<close>): the message of a
  failure is in its \<open>error\<close> field, and a page on which nothing but downloads failed has
  its raw HTML recorded and no error. Every asset URL of a loaded page that passes
  the filter was requested, whatever happened to the assets before it.
\<close>

theorem page_failures_do_not_abort:
  assumes "webflow_main env targets = (m, tr)"
  shows "\<forall>url \<in> set targets.
           \<exists>pr. map_of (pages m) url = Some pr \<and> page_outcome env url pr
             \<and> (\<forall>a \<in> set (page_candidates env url). Fetch a \<in> set tr)"
proof -
  have "wf_done env (empty_manifest, [])"
    by (simp add: wf_done_def empty_manifest_def)
  from wf_done_process_targets [OF this] assms
  have "wf_done env (m, tr)" "\<forall>url \<in> set targets. map_of (pages m) url \<noteq> None"
    unfolding webflow_main_def by blast+
  then show ?thesis
    unfolding wf_done_def by auto
qed

theorem page_failures_do_not_abort_witness:
  "map_of (pages (fst (webflow_main wf_broken TARGET_PAGES))) ''https://apply.agency/'' =
     Some \<lparr>assets = [], rawHtml = None, error = Some ''Timeout 30000ms exceeded''\<rparr>
   \<and> (\<exists>pr. map_of (pages (fst (webflow_main wf_broken TARGET_PAGES))) ''https://apply.agency/cases'' = Some pr
        \<and> rawHtml pr = Some (''pages/'' @ digest_hex (toy_digest ''https://apply.agency/cases'') @ ''.html'')
        \<and> error pr = None)
   \<and> Fetch x_png \<in> set (snd (webflow_main wf_broken TARGET_PAGES))
   \<and> Fetch y_png \<in> set (snd (webflow_main wf_broken TARGET_PAGES))"
proof -
  obtain m tr where r: "webflow_main wf_broken TARGET_PAGES = (m, tr)"
    by (cases "webflow_main wf_broken TARGET_PAGES")
  note c = page_failures_do_not_abort [OF r]
  have l1: "load wf_broken ''https://apply.agency/'' = LoadError ''Timeout 30000ms exceeded''"
    and l2: "load wf_broken ''https://apply.agency/cases'' = Loaded [x_png, y_png] Done"
    and md: "wf_md5 wf_broken = toy_digest" and nu: "wf_new_URL wf_broken = http_url"
    by (simp_all add: wf_broken_def)
  have t: "''https://apply.agency/'' \<in> set TARGET_PAGES" "''https://apply.agency/cases'' \<in> set TARGET_PAGES"
    by (simp_all add: TARGET_PAGES_def)
  obtain pr1 where p1: "map_of (pages m) ''https://apply.agency/'' = Some pr1"
    "page_outcome wf_broken ''https://apply.agency/'' pr1"
    using c t(1) by blast
  obtain pr2 where p2: "map_of (pages m) ''https://apply.agency/cases'' = Some pr2"
    "page_outcome wf_broken ''https://apply.agency/cases'' pr2"
    "\<forall>a \<in> set (page_candidates wf_broken ''https://apply.agency/cases''). Fetch a \<in> set tr"
    using c t(2) by blast
  have 1: "pr1 = \<lparr>assets = [], rawHtml = None, error = Some ''Timeout 30000ms exceeded''\<rparr>"
    using p1(2) by (simp add: page_outcome_def l1)
  have 2: "rawHtml pr2 = Some (''pages/'' @ digest_hex (toy_digest ''https://apply.agency/cases'') @ ''.html'')"
    "error pr2 = None"
    using p2(2) by (simp_all add: page_outcome_def l2 md)
  have "page_candidates wf_broken ''https://apply.agency/cases'' = [x_png, y_png]"
    by (simp add: page_candidates_def l2 nu x_png_webflow y_png_webflow)
  then have 3: "Fetch x_png \<in> set tr" "Fetch y_png \<in> set tr"
    using p2(3) by simp_all
  show ?thesis
    using p1(1) 1 p2(1) 2 3 by (simp add: r)
qed

section \<open>Paths built from segments\<close>

lemma split_join:
  "segs \<noteq> [] \<Longrightarrow> \<forall>s \<in> set segs. CHR ''/'' \<notin> set s \<Longrightarrow>
   split_on CHR ''/'' (join_with ''/'' segs) = segs"
proof (induction "''/''" segs rule: join_with.induct)
  case 1
  then show ?case by simp
next
  case (2 x)
  then show ?case by (simp add: split_on_no_sep)
next
  case (3 x y ys)
  have "split_on CHR ''/'' (x @ CHR ''/'' # join_with ''/'' (y # ys)) =
      x # split_on CHR ''/'' (join_with ''/'' (y # ys))"
    using 3 by (intro split_on_append_sep) simp
  then show ?case using 3 by simp
qed

lemma join_snoc:
  "segs \<noteq> [] \<Longrightarrow> join_with sep (segs @ [x]) = join_with sep segs @ sep @ x"
  by (induction sep segs rule: join_with.induct) auto

lemma join_not_empty:
  "segs \<noteq> [] \<Longrightarrow> \<forall>s \<in> set segs. s \<noteq> [] \<Longrightarrow> join_with sep segs \<noteq> []"
  by (induction sep segs rule: join_with.induct) auto

lemma last_join_aux:
  "segs \<noteq> [] \<Longrightarrow> last segs \<noteq> [] \<Longrightarrow>
   join_with sep segs \<noteq> [] \<and> last (join_with sep segs) = last (last segs)"
  by (induction sep segs rule: join_with.induct) auto

lemma last_join:
  "segs \<noteq> [] \<Longrightarrow> last segs \<noteq> [] \<Longrightarrow> last (join_with sep segs) = last (last segs)"
  using last_join_aux by blast

lemma endsWith_iff: "endsWith s p \<longleftrightarrow> (\<exists>pre. s = pre @ p)"
proof -
  have "endsWith s p \<longleftrightarrow> (\<exists>r. rev s = rev p @ r)"
    by (simp add: endsWith_def startsWith_iff)
  also have "\<dots> \<longleftrightarrow> (\<exists>pre. s = pre @ p)"
  proof
    assume "\<exists>r. rev s = rev p @ r"
    then obtain r where "rev s = rev p @ r" by blast
    then have "s = rev r @ p" by (metis rev_append rev_rev_ident)
    then show "\<exists>pre. s = pre @ p" by blast
  next
    assume "\<exists>pre. s = pre @ p"
    then show "\<exists>r. rev s = rev p @ r" by auto
  qed
  finally show ?thesis .
qed

lemma endsWith_slash: "endsWith s ''/'' \<longleftrightarrow> s \<noteq> [] \<and> last s = CHR ''/''"
proof (cases s rule: rev_cases)
  case Nil
  then show ?thesis by (simp add: endsWith_iff)
next
  case (snoc xs x)
  then show ?thesis by (auto simp: endsWith_iff)
qed

lemma clean_join:
  assumes "segs \<noteq> []" "\<forall>s \<in> set segs. clean_segment s"
  shows "join_with ''/'' segs \<noteq> []" "last (join_with ''/'' segs) \<noteq> CHR ''/''"
proof -
  have ne: "\<forall>s \<in> set segs. s \<noteq> []" using assms(2) by (simp add: clean_segment_def)
  show "join_with ''/'' segs \<noteq> []" using join_not_empty [OF assms(1) ne] .
  have l: "last segs \<in> set segs" using assms(1) by simp
  then have "last segs \<noteq> []" "CHR ''/'' \<notin> set (last segs)"
    using assms(2) by (simp_all add: clean_segment_def)
  then show "last (join_with ''/'' segs) \<noteq> CHR ''/''"
    using last_join [OF assms(1)] by (metis last_in_set)
qed

lemma page_file_name_plain:
  assumes "segs \<noteq> []" "\<forall>s \<in> set segs. clean_segment s"
  shows "page_file_name (''/'' @ join_with ''/'' segs) = join_with ''/'' segs"
  using clean_join [OF assms] by (simp add: page_file_name_def endsWith_slash)

lemma page_file_name_slash:
  assumes "segs \<noteq> []" "\<forall>s \<in> set segs. clean_segment s"
  shows "page_file_name (''/'' @ join_with ''/'' segs @ ''/'') = join_with ''/'' (segs @ [''index.html''])"
  using clean_join(1) [OF assms] assms(1)
  by (simp add: page_file_name_def endsWith_slash join_snoc)

lemma getRelativePath_join:
  assumes "segs \<noteq> []" "\<forall>s \<in> set segs. clean_segment s"
  shows "getRelativePath (join_with ''/'' segs) lp = dots (length segs - 1) @ lp"
proof -
  have "\<forall>s \<in> set segs. CHR ''/'' \<notin> set s" "\<forall>s \<in> set segs. s \<noteq> []"
    using assms(2) by (simp_all add: clean_segment_def)
  then have "filter (\<lambda>part. part \<noteq> []) (split_on CHR ''/'' (join_with ''/'' segs)) = segs"
    using split_join [OF assms(1)] by (simp add: filter_id_conv)
  moreover have "nat (int (length segs) - 1) = length segs - 1"
    by simp
  ultimately show ?thesis
    using assms(1) by (cases "length segs - 1") (auto simp: getRelativePath_def Let_def dots_def)
qed

section \<open>The frontier of the link-following crawler\<close>







lemma close_page_Returned: "tab_closes env u \<Longrightarrow> close_page env u st = Returned st"
  by (simp add: close_page_def)





lemma visit_ok_safe: "visit_ok E R st st' \<Longrightarrow> visit_safe E R st st'"
  by (simp add: visit_ok_def visit_safe_def)




















lemma cycle_files:
  "crawler_page_file cycle_config \<lparr>hostname = ''apply.agency'', pathname = ''/a''\<rparr> = ''downloaded_site/a.html''"
  "crawler_page_file cycle_config \<lparr>hostname = ''apply.agency'', pathname = ''/b''\<rparr> = ''downloaded_site/b.html''"
  unfolding cycle_config_def config_def by code_simp+













section \<open>The builder: a pattern at a reference\<close>

lemma strip_prefix_Some: "strip_prefix p s = Some r \<longleftrightarrow> s = p @ r"
  by (induction p s rule: strip_prefix.induct) auto

lemma strip_prefix_None: "strip_prefix p s = None \<longleftrightarrow> \<not> startsWith s p"
  by (induction p s rule: strip_prefix.induct) auto

lemma strip_prefix_append: "strip_prefix p (p @ r) = Some r"
  by (simp add: strip_prefix_Some)

lemma match_lits:
  "match_here (map (One \<circ> Lit) lits @ p) s =
     (case strip_prefix lits s of None \<Rightarrow> None | Some r \<Rightarrow> match_here p r)"
proof (induction lits arbitrary: s)
  case Nil
  then show ?case by simp
next
  case (Cons c lits)
  then show ?case by (cases s) auto
qed

lemma compile_url_plain: "\<not> list_ex special_char u \<Longrightarrow> compile_url u = Some (cpat u)"
  by (simp add: compile_url_def)

lemma cpat_self: "match_here (cpat u @ k) (u @ s) = match_here k s"
  by (induction u) auto

lemma takes_for_refl: "takes_for u u"
  by (induction u) auto

lemma no_take_attr:
  assumes "dq \<notin> set u" "sq \<notin> set u" "quote_mark q'"
  shows "\<not> takes_for u v \<Longrightarrow> dq \<notin> set v \<Longrightarrow> sq \<notin> set v \<Longrightarrow>
         match_here (cpat u @ [One (OneOf [dq, sq])]) (v @ q' # rest) = None"
  using assms
proof (induction u v rule: takes_for.induct)
  case 1
  then show ?case by simp
next
  case (2 c cs)
  then show ?case by auto
next
  case (3 p ps)
  then show ?case by (auto simp: quote_mark_def)
next
  case (4 p ps c cs)
  then show ?case by auto
qed

lemma no_take_css:
  "\<not> takes_for u v \<Longrightarrow> dq \<notin> set u \<Longrightarrow> sq \<notin> set u \<Longrightarrow> CHR '')'' \<notin> set u \<Longrightarrow> opt_quote oq' \<Longrightarrow>
   dq \<notin> set v \<Longrightarrow> sq \<notin> set v \<Longrightarrow> CHR '')'' \<notin> set v \<Longrightarrow>
   match_here (cpat u @ [Opt (OneOf [sq, dq]), One (Lit CHR '')'')]) (v @ oq' @ CHR '')'' # rest) = None"
proof (induction u v rule: takes_for.induct)
  case 1
  then show ?case by simp
next
  case (2 c cs)
  then show ?case by auto
next
  case (3 p ps)
  then show ?case by (auto simp: opt_quote_def)
next
  case (4 p ps c cs)
  let ?K = "[Opt (OneOf [sq, dq]), One (Lit CHR '')'')]"
  show ?case
  proof (cases "takes_for ps cs")
    case False
    have "match_here (cpat ps @ ?K) (cs @ oq' @ CHR '')'' # rest) = None"
      using "4.IH" False "4.prems" by simp
    then show ?thesis by simp
  next
    case True
    then have "\<not> (p = c \<or> (p = CHR ''.'' \<and> c \<noteq> CHR 0x0A \<and> c \<noteq> CHR 0x0D))"
      using "4.prems"(1) by simp
    then show ?thesis by auto
  qed
qed

lemma close_css:
  "opt_quote oq' \<Longrightarrow>
   match_here [Opt (OneOf [sq, dq]), One (Lit CHR '')'')] (oq' @ CHR '')'' # rest) = Some rest"
  by (auto simp: opt_quote_def)

lemma attr_at_piece:
  assumes "dq \<notin> set u" "sq \<notin> set u" "dq \<notin> set v" "sq \<notin> set v"
    and "quote_mark q" "quote_mark q'" "v = u \<or> \<not> takes_for u v"
  shows "match_here (map (One \<circ> Lit) name @ [One (OneOf [dq, sq])] @ cpat u @ [One (OneOf [dq, sq])])
           (name @ [q] @ v @ [q'] @ rest) = (if v = u then Some rest else None)"
proof -
  have q: "atom_matches (OneOf [dq, sq]) q" "atom_matches (OneOf [dq, sq]) q'"
    using assms(5,6) by (auto simp: quote_mark_def)
  have "match_here (cpat u @ [One (OneOf [dq, sq])]) (v @ q' # rest) = (if v = u then Some rest else None)"
  proof (cases "v = u")
    case True
    then show ?thesis using cpat_self [of u "[One (OneOf [dq, sq])]" "q' # rest"] q by simp
  next
    case False
    then show ?thesis using no_take_attr [OF assms(1,2,6)] assms(3,4,7) by simp
  qed
  then show ?thesis
    using q by (simp add: match_lits strip_prefix_append)
qed

lemma css_at_piece:
  assumes "dq \<notin> set u" "sq \<notin> set u" "CHR '')'' \<notin> set u" "u \<noteq> []" "hd u \<noteq> CHR ''.''"
    and "dq \<notin> set v" "sq \<notin> set v" "CHR '')'' \<notin> set v" "v \<noteq> []"
    and "opt_quote oq" "opt_quote oq'" "v = u \<or> \<not> takes_for u v"
  shows "match_here (url_pattern (cpat u)) (''url('' @ oq @ v @ oq' @ '')'' @ rest) =
           (if v = u then Some rest else None)"
proof -
  let ?K = "[Opt (OneOf [sq, dq]), One (Lit CHR '')'')]"
  have inner: "match_here (cpat u @ ?K) (v @ oq' @ CHR '')'' # rest) = (if v = u then Some rest else None)"
  proof (cases "v = u")
    case True
    then show ?thesis using cpat_self [of u ?K "oq' @ CHR '')'' # rest"] close_css [OF assms(11)] by simp
  next
    case False
    then show ?thesis using no_take_css [of u v oq' rest] assms by simp
  qed
  obtain c cs where v: "v = c # cs" using assms(9) by (cases v) auto
  obtain p ps where u: "u = p # ps" using assms(4) by (cases u) auto
  have nq: "c \<noteq> dq" "c \<noteq> sq" using assms(6,7) v by auto
  have pq: "p \<noteq> dq" "p \<noteq> sq" "p \<noteq> CHR ''.''" using assms(1,2,5) u by auto
  have fallback: "match_here (cpat u @ ?K) (q # v @ oq' @ CHR '')'' # rest) = None" if "quote_mark q" for q
    using that pq unfolding u by (auto simp: quote_mark_def)
  have "match_here (Opt (OneOf [sq, dq]) # cpat u @ ?K) (oq @ v @ oq' @ CHR '')'' # rest) =
      (if v = u then Some rest else None)"
  proof (cases "oq = []")
    case True
    have "match_here (Opt (OneOf [sq, dq]) # cpat u @ ?K) (c # cs @ oq' @ CHR '')'' # rest) =
        match_here (cpat u @ ?K) (c # cs @ oq' @ CHR '')'' # rest)"
      using nq by simp
    then show ?thesis using inner True v by simp
  next
    case False
    then obtain q where oq: "oq = [q]" and qm: "quote_mark q"
      using assms(10) by (auto simp: opt_quote_def quote_mark_def)
    have "match_here (Opt (OneOf [sq, dq]) # cpat u @ ?K) (q # v @ oq' @ CHR '')'' # rest) =
        (case match_here (cpat u @ ?K) (v @ oq' @ CHR '')'' # rest) of
           Some r \<Rightarrow> Some r
         | None \<Rightarrow> match_here (cpat u @ ?K) (q # v @ oq' @ CHR '')'' # rest))"
      using qm by (auto simp: quote_mark_def)
    then show ?thesis using inner fallback [OF qm] oq by simp
  qed
  then show ?thesis
    unfolding url_pattern_def by (simp add: match_lits strip_prefix_append)
qed

section \<open>The builder: scanning a text\<close>

lemma expand_no_dollar: "CHR ''$'' \<notin> set rep \<Longrightarrow> expand_replacement rep l m r = rep"
  by (induction rep l m r rule: expand_replacement.induct) auto

lemma replace_all_from_left:
  "CHR ''$'' \<notin> set rep \<Longrightarrow>
    replace_all_from pat rep left s = replace_all_from pat rep left' s"
proof (induction pat rep left s arbitrary: left' rule: replace_all_from.induct)
  case (1 pat rep left)
  then show ?case by (simp add: expand_no_dollar split: option.splits)
next
  case (2 pat rep left c cs)
  show ?case
  proof (cases "match_here pat (c # cs)")
    case None
    then have "replace_all_from pat rep (left @ [c]) cs = replace_all_from pat rep (left' @ [c]) cs"
      using "2.IH" "2.prems" by blast
    then show ?thesis using None by simp
  next
    case (Some rest)
    let ?m = "take (length (c # cs) - length rest) (c # cs)"
    show ?thesis
    proof (cases "length rest < length (c # cs)")
      case True
      then have "replace_all_from pat rep (left @ ?m) rest = replace_all_from pat rep (left' @ ?m) rest"
        using "2.IH" "2.prems" Some by blast
      then show ?thesis using Some True "2.prems" by (simp add: expand_no_dollar)
    next
      case False
      then have "replace_all_from pat rep (left @ [c]) cs = replace_all_from pat rep (left' @ [c]) cs"
        using "2.IH" "2.prems" Some by blast
      then show ?thesis using Some False "2.prems" by (simp add: expand_no_dollar)
    qed
  qed
qed

lemma replace_all_at_match:
  assumes "match_here pat (m @ post) = Some post" "m \<noteq> []" "CHR ''$'' \<notin> set rep"
  shows "replace_all pat rep (m @ post) = rep @ replace_all pat rep post"
proof -
  obtain c cs where cs: "m @ post = c # cs"
    using assms(2) by (cases m) auto
  have l: "length post < length (c # cs)"
    using cs assms(2) by (metis length_append length_greater_0_conv less_add_same_cancel2)
  have t: "take (length (c # cs) - length post) (c # cs) = m"
    using cs by (metis add_diff_cancel_right' append_eq_conv_conj length_append)
  have "replace_all_from pat rep [] (c # cs) =
      expand_replacement rep [] m post @ replace_all_from pat rep ([] @ m) post"
    using assms(1) l t unfolding cs by simp
  then show ?thesis
    unfolding replace_all_def cs [symmetric]
    using replace_all_from_left [OF assms(3), of pat "[] @ m" post "[]"] expand_no_dollar [OF assms(3)]
    by simp
qed

lemma replace_all_skip:
  assumes "match_here pat (c # s) = None" "CHR ''$'' \<notin> set rep"
  shows "replace_all pat rep (c # s) = c # replace_all pat rep s"
  unfolding replace_all_def
  using assms(1) replace_all_from_left [OF assms(2), of pat "[c]" s "[]"] by simp


lemma replace_all_quiet:
  assumes "CHR ''$'' \<notin> set rep"
  shows "(\<forall>i<length x. match_here pat (drop i x @ rest) = None) \<Longrightarrow>
         replace_all pat rep (x @ rest) = x @ replace_all pat rep rest"
proof (induction x)
  case Nil
  then show ?case by simp
next
  case (Cons c x)
  have 0: "match_here pat (c # x @ rest) = None"
    using Cons.prems by force
  have "\<forall>i<length x. match_here pat (drop i x @ rest) = None"
  proof (intro allI impI)
    fix i assume "i < length x"
    then have "Suc i < length (c # x)" by simp
    then have "match_here pat (drop (Suc i) (c # x) @ rest) = None"
      using Cons.prems by blast
    then show "match_here pat (drop i x @ rest) = None" by simp
  qed
  then have "replace_all pat rep (x @ rest) = x @ replace_all pat rep rest"
    by (rule Cons.IH)
  then show ?case
    using replace_all_skip [OF 0 assms] by simp
qed

lemma lits_head: "match_here (map (One \<circ> Lit) l @ p) s \<noteq> None \<Longrightarrow> startsWith s l"
  using strip_prefix_None [of l s] by (auto simp: match_lits split: option.splits)

lemma headed_patterns: "headed (src_pattern p)" "headed (href_pattern p)" "headed (url_pattern p)"
  unfolding headed_def src_pattern_def href_pattern_def url_pattern_def head_at_def
  using lits_head by blast+

lemma replace_all_quiet_run:
  assumes "headed pat" "CHR ''$'' \<notin> set rep" "quiet_run x rest"
  shows "replace_all pat rep (x @ rest) = x @ replace_all pat rep rest"
proof (rule replace_all_quiet [OF assms(2)])
  show "\<forall>i<length x. match_here pat (drop i x @ rest) = None"
    using assms(1,3) unfolding headed_def quiet_run_def by blast
qed

lemma replace_all_unmatched:
  assumes "headed pat" "CHR ''$'' \<notin> set rep" "match_here pat (c # x @ rest) = None" "quiet_run x rest"
  shows "replace_all pat rep (c # x @ rest) = c # x @ replace_all pat rep rest"
  using replace_all_skip [OF assms(3,2)] replace_all_quiet_run [OF assms(1,2,4)] by simp

lemma replace_all_empty: "headed pat \<Longrightarrow> replace_all pat rep [] = []"
proof -
  assume "headed pat"
  then have "match_here pat [] = None"
    unfolding headed_def head_at_def by (metis startsWith.simps(2))
  then show ?thesis by (simp add: replace_all_def)
qed

lemma head_at_iff:
  "head_at s \<longleftrightarrow> (\<exists>l z. l \<in> {''src='', ''href='', ''url(''} \<and> s = l @ z)"
  unfolding head_at_def startsWith_iff by blast

lemma head_at_first: "head_at (c # s) \<Longrightarrow> c = CHR ''s'' \<or> c = CHR ''h'' \<or> c = CHR ''u''"
  by (auto simp: head_at_def)

lemma quiet_run_append:
  assumes "quiet_run a (b @ rest)" "quiet_run b rest"
  shows "quiet_run (a @ b) rest"
  unfolding quiet_run_def
proof (intro allI impI)
  fix i assume i: "i < length (a @ b)"
  show "\<not> head_at (drop i (a @ b) @ rest)"
  proof (cases "i < length a")
    case True
    then show ?thesis using assms(1) by (simp add: quiet_run_def)
  next
    case False
    then have "i - length a < length b" using i by simp
    then show ?thesis using assms(2) False by (simp add: quiet_run_def)
  qed
qed

lemma quiet_run_chars:
  assumes "CHR ''s'' \<notin> set a" "CHR ''h'' \<notin> set a" "CHR ''u'' \<notin> set a"
  shows "quiet_run a rest"
  unfolding quiet_run_def
proof (intro allI impI)
  fix i assume i: "i < length a"
  then have d: "drop i a = a ! i # drop (Suc i) a"
    by (simp add: Cons_nth_drop_Suc)
  have "a ! i \<in> set a" using i by simp
  then have "a ! i \<noteq> CHR ''s''" "a ! i \<noteq> CHR ''h''" "a ! i \<noteq> CHR ''u''"
    using assms by auto
  then show "\<not> head_at (drop i a @ rest)"
    using head_at_first [of "a ! i" "drop (Suc i) a @ rest"] d by auto
qed

lemma straddle:
  assumes "d \<noteq> []" "d @ r = l @ z"
  shows "(\<exists>w. d = l @ w) \<or> (r \<noteq> [] \<and> hd r \<in> set (tl l))"
proof -
  from assms(2) consider us where "d = l @ us" | us where "d @ us = l" "r = us @ z"
    by (auto simp: append_eq_append_conv2)
  then show ?thesis
  proof cases
    case 1
    then show ?thesis by blast
  next
    case 2
    show ?thesis
    proof (cases "us = []")
      case True
      then show ?thesis using 2 by auto
    next
      case False
      obtain c d' where d: "d = c # d'" using assms(1) by (cases d) auto
      have "tl l = d' @ us" using 2(1) d by auto
      moreover have "hd r = hd us" "r \<noteq> []" using 2(2) False by auto
      ultimately show ?thesis using False by auto
    qed
  qed
qed

lemma inert_drop:
  assumes "inert t" "l \<in> {''src='', ''href='', ''url(''}"
  shows "drop i t \<noteq> l @ w"
proof
  assume "drop i t = l @ w"
  then have "t = take i t @ l @ w"
    by (metis append_take_drop_id)
  then have "str_includes t l"
    unfolding includes_iff by blast
  then show False using assms by (auto simp: inert_def)
qed

lemma quiet_run_text:
  assumes "inert t" "rest = [] \<or> hd rest \<in> {CHR ''s'', CHR ''h'', CHR ''u''}"
  shows "quiet_run t rest"
  unfolding quiet_run_def
proof (intro allI impI notI)
  fix i assume i: "i < length t" and h: "head_at (drop i t @ rest)"
  then obtain l z where l: "l \<in> {''src='', ''href='', ''url(''}" and e: "drop i t @ rest = l @ z"
    unfolding head_at_iff by blast
  have "drop i t \<noteq> []" using i by simp
  from straddle [OF this e] inert_drop [OF assms(1) l]
  have "rest \<noteq> [] \<and> hd rest \<in> set (tl l)" by blast
  then show False using assms(2) l by auto
qed

lemma quiet_run_ref:
  assumes "inert v" "b = dq \<or> b = sq \<or> b = CHR '')''"
  shows "quiet_run v (b # rest)"
  unfolding quiet_run_def
proof (intro allI impI notI)
  fix i assume i: "i < length v" and h: "head_at (drop i v @ b # rest)"
  then obtain l z where l: "l \<in> {''src='', ''href='', ''url(''}" and e: "drop i v @ b # rest = l @ z"
    unfolding head_at_iff by blast
  have "drop i v \<noteq> []" using i by simp
  from straddle [OF this e] inert_drop [OF assms(1) l]
  have "b \<in> set (tl l)" by auto
  then show False using assms(2) l by auto
qed

section \<open>The builder: one pass over a page\<close>

lemma headed_kind: "headed (kind_pattern k p)"
  by (cases k) (simp_all add: headed_patterns)

lemma kind_rep_dollar: "CHR ''$'' \<notin> set rp \<Longrightarrow> CHR ''$'' \<notin> set (kind_rep k rp)"
  by (cases k) auto

lemma plain_asset_facts:
  assumes "plain_asset_url u"
  shows "dq \<notin> set u" "sq \<notin> set u" "CHR '')'' \<notin> set u" "u \<noteq> []" "hd u \<noteq> CHR ''.''"
    "compile_url u = Some (cpat u)"
  using assms by (auto simp: plain_asset_url_def plain_ref_def compile_url_def)

lemma tail_quiet_attr:
  assumes "quote_mark q" "quote_mark q'" "plain_ref v"
    and "CHR ''s'' \<notin> set name" "CHR ''h'' \<notin> set name" "CHR ''u'' \<notin> set name"
  shows "quiet_run (name @ [q] @ v @ [q']) rest"
proof -
  have 1: "quiet_run [q'] rest" "quiet_run [q] (v @ [q'] @ rest)"
    using assms(1,2) by (auto intro!: quiet_run_chars simp: quote_mark_def)
  have 2: "quiet_run v ([q'] @ rest)"
    using quiet_run_ref [of v q' rest] assms(2,3) by (auto simp: plain_ref_def quote_mark_def)
  have 3: "quiet_run name (([q] @ v @ [q']) @ rest)"
    using assms(4,5,6) by (rule quiet_run_chars)
  have "quiet_run (v @ [q']) rest"
    using quiet_run_append [OF 2 1(1)] .
  then have "quiet_run ([q] @ v @ [q']) rest"
    using quiet_run_append [of "[q]" "v @ [q']" rest] 1(2) by simp
  then show ?thesis
    using quiet_run_append [OF 3] by simp
qed

lemma tail_quiet_css:
  assumes "opt_quote oq" "opt_quote oq'" "plain_ref v"
  shows "quiet_run (''rl('' @ oq @ v @ oq' @ '')'') rest"
proof -
  have c: "quiet_run '')'' rest" "quiet_run oq' ('')'' @ rest)" "quiet_run oq ((v @ oq' @ '')'') @ rest)"
    "quiet_run ''rl('' ((oq @ v @ oq' @ '')'') @ rest)"
    using assms(1,2) by (auto intro!: quiet_run_chars simp: opt_quote_def)
  have 2: "quiet_run v ((oq' @ '')'') @ rest)"
  proof -
    have i: "inert v" using assms(3) by (simp add: plain_ref_def)
    consider "oq' = []" | "oq' = [dq]" | "oq' = [sq]"
      using assms(2) by (auto simp: opt_quote_def)
    then show ?thesis
    proof cases
      case 1
      then show ?thesis using quiet_run_ref [OF i, of "CHR '')''" rest] by simp
    next
      case 2
      then show ?thesis using quiet_run_ref [OF i, of dq "'')'' @ rest"] by simp
    next
      case 3
      then show ?thesis using quiet_run_ref [OF i, of sq "'')'' @ rest"] by simp
    qed
  qed
  have "quiet_run (oq' @ '')'') rest"
    using quiet_run_append [OF c(2,1)] .
  then have "quiet_run (v @ oq' @ '')'') rest"
    using quiet_run_append [OF 2] by simp
  then have "quiet_run (oq @ v @ oq' @ '')'') rest"
    using quiet_run_append [OF c(3)] by simp
  then show ?thesis
    using quiet_run_append [OF c(4)] by simp
qed

lemma other_head:
  assumes "\<not> startsWith s l"
  shows "match_here (map (One \<circ> Lit) l @ p) s = None"
  using assms lits_head by blast

lemma hits_simps [simp]:
  "hits k u (Text t) = False"
  "hits k u (Src q v q') = (k = KSrc \<and> v = u)"
  "hits k u (Href q v q') = (k = KHref \<and> v = u)"
  "hits k u (Css oq v oq') = (k = KCss \<and> v = u)"
  by (auto simp: hits_def)

lemma render_kind_piece: "render_piece (kind_piece k rp) = kind_rep k rp"
  by (cases k) simp_all

lemma match_at_piece:
  assumes u: "plain_asset_url u" and ok: "piece_ok p" and np: "\<not> is_Text p"
    and rf: "\<forall>v \<in> set (refs p). v = u \<or> \<not> takes_for u v"
  shows "match_here (kind_pattern k (cpat u)) (render_piece p @ rest) =
           (if hits k u p then Some rest else None)"
proof (cases p)
  case (Text t)
  then show ?thesis using np by simp
next
  case (Src q v q')
  then have f: "quote_mark q" "quote_mark q'" "dq \<notin> set v" "sq \<notin> set v" "v = u \<or> \<not> takes_for u v"
    using ok rf by (simp_all add: plain_ref_def)
  show ?thesis
  proof (cases k)
    case KSrc
    then show ?thesis
      using attr_at_piece [OF plain_asset_facts(1,2) [OF u] f(3,4,1,2,5), of "''src=''" rest] Src
      by (simp add: src_pattern_def)
  next
    case KHref
    then show ?thesis using Src by (simp add: href_pattern_def other_head)
  next
    case KCss
    then show ?thesis using Src by (simp add: url_pattern_def other_head)
  qed
next
  case (Href q v q')
  then have f: "quote_mark q" "quote_mark q'" "dq \<notin> set v" "sq \<notin> set v" "v = u \<or> \<not> takes_for u v"
    using ok rf by (simp_all add: plain_ref_def)
  show ?thesis
  proof (cases k)
    case KHref
    then show ?thesis
      using attr_at_piece [OF plain_asset_facts(1,2) [OF u] f(3,4,1,2,5), of "''href=''" rest] Href
      by (simp add: href_pattern_def)
  next
    case KSrc
    then show ?thesis using Href by (simp add: src_pattern_def other_head)
  next
    case KCss
    then show ?thesis using Href by (simp add: url_pattern_def other_head)
  qed
next
  case (Css oq v oq')
  then have f: "dq \<notin> set v" "sq \<notin> set v" "CHR '')'' \<notin> set v" "v \<noteq> []"
    "opt_quote oq" "opt_quote oq'" "v = u \<or> \<not> takes_for u v"
    using ok rf by (simp_all add: plain_ref_def)
  show ?thesis
  proof (cases k)
    case KCss
    then show ?thesis
      using css_at_piece [OF plain_asset_facts(1,2,3,4,5) [OF u] f, of rest] Css
      by simp
  next
    case KSrc
    then show ?thesis using Css by (simp add: src_pattern_def other_head)
  next
    case KHref
    then show ?thesis using Css by (simp add: href_pattern_def other_head)
  qed
qed

lemma piece_tail_quiet:
  assumes "piece_ok p" "\<not> is_Text p"
  shows "\<exists>c x. render_piece p = c # x \<and> quiet_run x rest"
proof (cases p)
  case (Text t)
  then show ?thesis using assms by simp
next
  case (Src q v q')
  then have "quiet_run (''rc='' @ [q] @ v @ [q']) rest"
    using assms by (intro tail_quiet_attr) simp_all
  then show ?thesis using Src by simp
next
  case (Href q v q')
  then have "quiet_run (''ref='' @ [q] @ v @ [q']) rest"
    using assms by (intro tail_quiet_attr) simp_all
  then show ?thesis using Href by simp
next
  case (Css oq v oq')
  then have "quiet_run (''rl('' @ oq @ v @ oq' @ '')'') rest"
    using assms by (intro tail_quiet_css) simp_all
  then show ?thesis using Css by simp
qed

lemma render_piece_nonempty: "\<not> is_Text p \<Longrightarrow> render_piece p \<noteq> []"
  by (cases p) simp_all

lemma pass_piece:
  assumes u: "plain_asset_url u" and ok: "piece_ok p"
    and rf: "\<forall>v \<in> set (refs p). v = u \<or> \<not> takes_for u v"
    and rp: "CHR ''$'' \<notin> set rp"
    and calm: "is_Text p \<longrightarrow> rest = [] \<or> hd rest \<in> {CHR ''s'', CHR ''h'', CHR ''u''}"
  shows "replace_all (kind_pattern k (cpat u)) (kind_rep k rp) (render_piece p @ rest) =
           render_piece (rewrite_kind k u rp p) @ replace_all (kind_pattern k (cpat u)) (kind_rep k rp) rest"
proof (cases "is_Text p")
  case True
  then obtain t where t: "p = Text t" by (cases p) auto
  then have "quiet_run t rest"
    using quiet_run_text [of t rest] ok calm by simp
  then show ?thesis
    using replace_all_quiet_run [OF headed_kind kind_rep_dollar [OF rp]] t
    by (simp add: rewrite_kind_def)
next
  case False
  note m = match_at_piece [OF u ok False rf, of k rest]
  show ?thesis
  proof (cases "hits k u p")
    case True
    then have "match_here (kind_pattern k (cpat u)) (render_piece p @ rest) = Some rest"
      using m by simp
    from replace_all_at_match [OF this render_piece_nonempty [OF False] kind_rep_dollar [OF rp]]
    show ?thesis using True by (simp add: rewrite_kind_def render_kind_piece)
  next
    case nh: False
    obtain c x where cx: "render_piece p = c # x" and q: "quiet_run x rest"
      using piece_tail_quiet [OF ok False] by blast
    have "match_here (kind_pattern k (cpat u)) (c # x @ rest) = None"
      using m nh cx by simp
    from replace_all_unmatched [OF headed_kind kind_rep_dollar [OF rp] this q]
    show ?thesis using nh cx by (simp add: rewrite_kind_def)
  qed
qed

lemma render_Cons: "render (p # doc) = render_piece p @ render doc"
  by (simp add: render_def)

lemma render_head:
  "separated (p # doc) \<Longrightarrow> is_Text p \<Longrightarrow>
   render doc = [] \<or> hd (render doc) \<in> {CHR ''s'', CHR ''h'', CHR ''u''}"
proof (cases doc)
  case Nil
  then show ?thesis by (simp add: render_def)
next
  case (Cons p' rest)
  assume "separated (p # doc)" "is_Text p"
  then have "\<not> is_Text p'" using Cons by simp
  then show ?thesis using Cons by (cases p') (simp_all add: render_Cons)
qed

lemma separated_tail: "separated (p # doc) \<Longrightarrow> separated doc"
  by (cases doc) simp_all

lemma pass_doc:
  assumes u: "plain_asset_url u" and rp: "CHR ''$'' \<notin> set rp"
  shows "list_all piece_ok doc \<Longrightarrow> separated doc \<Longrightarrow>
         \<forall>p \<in> set doc. \<forall>v \<in> set (refs p). v = u \<or> \<not> takes_for u v \<Longrightarrow>
         replace_all (kind_pattern k (cpat u)) (kind_rep k rp) (render doc) =
           render (map (rewrite_kind k u rp) doc)"
proof (induction doc)
  case Nil
  then show ?case by (simp add: render_def replace_all_empty [OF headed_kind])
next
  case (Cons p doc)
  have ih: "replace_all (kind_pattern k (cpat u)) (kind_rep k rp) (render doc) =
      render (map (rewrite_kind k u rp) doc)"
    using Cons.IH Cons.prems separated_tail [of p doc] by simp
  have "replace_all (kind_pattern k (cpat u)) (kind_rep k rp) (render_piece p @ render doc) =
      render_piece (rewrite_kind k u rp p) @ replace_all (kind_pattern k (cpat u)) (kind_rep k rp) (render doc)"
  proof (rule pass_piece [OF u _ _ rp])
    show "piece_ok p" using Cons.prems(1) by simp
    show "\<forall>v \<in> set (refs p). v = u \<or> \<not> takes_for u v" using Cons.prems(3) by simp
    show "is_Text p \<longrightarrow> render doc = [] \<or> hd (render doc) \<in> {CHR ''s'', CHR ''h'', CHR ''u''}"
      using render_head [OF Cons.prems(2)] by blast
  qed
  then show ?case using ih by (simp add: render_Cons)
qed

section \<open>The builder: all passes\<close>

lemma three_kinds:
  "rewrite_kind KCss u rp (rewrite_kind KHref u rp (rewrite_kind KSrc u rp p)) =
   rewrite_piece [u \<mapsto> rp] p"
  by (cases p) (auto simp: rewrite_kind_def)

lemma rewrite_kind_ok: "plain_ref rp \<Longrightarrow> piece_ok p \<Longrightarrow> piece_ok (rewrite_kind k u rp p)"
  by (cases k; cases p) (auto simp: rewrite_kind_def quote_mark_def opt_quote_def)

lemma rewrite_kind_text: "is_Text (rewrite_kind k u rp p) = is_Text p"
  by (cases k; cases p) (auto simp: rewrite_kind_def)

lemma separated_map:
  assumes "\<And>p. is_Text (f p) = is_Text p"
  shows "separated (map f doc) = separated doc"
  by (induction doc rule: separated.induct) (simp_all add: assms)

lemma refs_rewrite_kind:
  "v \<in> set (refs (rewrite_kind k u rp p)) \<Longrightarrow> v \<in> set (refs p) \<or> v = rp"
  by (cases k; cases p) (auto simp: rewrite_kind_def split: if_splits)

lemma pass_keeps:
  assumes "plain_ref rp" "u' = u \<or> \<not> takes_for u' rp"
    and "list_all piece_ok doc" "separated doc"
    and "\<forall>p \<in> set doc. \<forall>v \<in> set (refs p). v = u' \<or> \<not> takes_for u' v"
  shows "list_all piece_ok (map (rewrite_kind k u rp) doc)"
    and "separated (map (rewrite_kind k u rp) doc)"
    and "\<forall>p \<in> set (map (rewrite_kind k u rp) doc). \<forall>v \<in> set (refs p). v = u' \<or> v = rp \<or> \<not> takes_for u' v"
proof -
  show "list_all piece_ok (map (rewrite_kind k u rp) doc)"
    using assms(1,3) by (auto simp: list_all_iff rewrite_kind_ok)
  show "separated (map (rewrite_kind k u rp) doc)"
    using assms(4) by (simp add: separated_map rewrite_kind_text)
  show "\<forall>p \<in> set (map (rewrite_kind k u rp) doc). \<forall>v \<in> set (refs p). v = u' \<or> v = rp \<or> \<not> takes_for u' v"
    using assms(5) refs_rewrite_kind by fastforce
qed


lemma pass_keeps_refs:
  assumes "plain_ref rp" "\<not> takes_for u' rp"
    and "list_all piece_ok doc" "separated doc"
    and "\<forall>p \<in> set doc. \<forall>v \<in> set (refs p). v = u' \<or> \<not> takes_for u' v"
  shows "\<forall>p \<in> set (map (rewrite_kind k u rp) doc). \<forall>v \<in> set (refs p). v = u' \<or> \<not> takes_for u' v"
  using pass_keeps(3) [OF assms(1) _ assms(3,4,5), of u k] assms(2) by blast

lemma rewrite_asset_doc:
  assumes p: "new_URL pageUrl = Some parsed"
    and rp: "rp = getRelativePath (page_file_name (pathname parsed)) (localPath a)"
    and u: "plain_asset_url (originalUrl a)"
    and r: "plain_ref rp" "CHR ''$'' \<notin> set rp" "\<not> takes_for (originalUrl a) rp"
    and d: "list_all piece_ok doc" "separated doc"
      "\<forall>p \<in> set doc. \<forall>v \<in> set (refs p). v = originalUrl a \<or> \<not> takes_for (originalUrl a) v"
  shows "rewrite_asset engine new_URL pageUrl a (render doc) =
           Inr (render (map (rewrite_piece [originalUrl a \<mapsto> rp]) doc))"
proof -
  let ?u = "originalUrl a"
  define d1 where "d1 = map (rewrite_kind KSrc ?u rp) doc"
  define d2 where "d2 = map (rewrite_kind KHref ?u rp) d1"
  define d3 where "d3 = map (rewrite_kind KCss ?u rp) d2"
  have k1: "list_all piece_ok d1" "separated d1"
    "\<forall>p \<in> set d1. \<forall>v \<in> set (refs p). v = ?u \<or> \<not> takes_for ?u v"
    unfolding d1_def
    using pass_keeps(1,2) [OF r(1) _ d, of ?u KSrc] pass_keeps_refs [OF r(1,3) d, of KSrc ?u]
    by simp_all
  have k2: "list_all piece_ok d2" "separated d2"
    "\<forall>p \<in> set d2. \<forall>v \<in> set (refs p). v = ?u \<or> \<not> takes_for ?u v"
    unfolding d2_def
    using pass_keeps(1,2) [OF r(1) _ k1, of ?u KHref] pass_keeps_refs [OF r(1,3) k1, of KHref ?u]
    by simp_all
  have 1: "replace_all (src_pattern (cpat ?u)) (''src='' @ [dq] @ rp @ [dq]) (render doc) = render d1"
    using pass_doc [OF u r(2) d, of KSrc] by (simp add: d1_def)
  have 2: "replace_all (href_pattern (cpat ?u)) (''href='' @ [dq] @ rp @ [dq]) (render d1) = render d2"
    using pass_doc [OF u r(2) k1, of KHref] by (simp add: d2_def)
  have 3: "replace_all (url_pattern (cpat ?u)) (''url('' @ [sq] @ rp @ [sq] @ '')'') (render d2) = render d3"
    using pass_doc [OF u r(2) k2, of KCss] by (simp add: d3_def)
  have "d3 = map (rewrite_piece [?u \<mapsto> rp]) doc"
    by (simp add: d3_def d2_def d1_def three_kinds)
  then show ?thesis
    using p rp [symmetric] plain_asset_facts(6) [OF u] 1 2 3
    by (simp add: rewrite_asset_def Let_def global_replace_def)
qed

lemma rewrite_piece_stack:
  assumes "tbl rp = None"
  shows "rewrite_piece tbl (rewrite_piece [u \<mapsto> rp] p) =
         rewrite_piece (\<lambda>x. if x = u then Some rp else tbl x) p"
  using assms by (cases p) (auto split: option.splits)

lemma rewritable_tail:
  assumes "rewritable ((u, rp) # tbl) doc"
  shows "rewritable tbl (map (rewrite_piece [u \<mapsto> rp]) doc)" and "map_of tbl rp = None"
proof -
  have d: "list_all piece_ok doc" "separated doc"
    and h: "plain_ref rp"
    using assms unfolding rewritable_def by simp_all
  have t: "plain_asset_url u' \<and> \<not> takes_for u' rp \<and> (\<forall>rp' \<in> snd ` set tbl. \<not> takes_for u' rp')
        \<and> (\<forall>p \<in> set doc. \<forall>v \<in> set (refs p). v = u' \<or> \<not> takes_for u' v)"
    if "u' \<in> fst ` set tbl" for u'
  proof -
    have a: "\<And>x. x \<in> fst ` set ((u, rp) # tbl) \<Longrightarrow>
        plain_asset_url x \<and> (\<forall>r \<in> snd ` set ((u, rp) # tbl). \<not> takes_for x r)
        \<and> (\<forall>p \<in> set doc. \<forall>v \<in> set (refs p). v = x \<or> \<not> takes_for x v)"
      using assms unfolding rewritable_def by blast
    have "u' \<in> fst ` set ((u, rp) # tbl)" using that by auto
    moreover have "rp \<in> snd ` set ((u, rp) # tbl)" by force
    moreover have "snd ` set tbl \<subseteq> snd ` set ((u, rp) # tbl)" by auto
    ultimately show ?thesis using a [of u'] by blast
  qed
  have r: "\<forall>rp' \<in> snd ` set tbl. plain_ref rp' \<and> CHR ''$'' \<notin> set rp'"
    using assms unfolding rewritable_def by simp
  let ?f = "rewrite_piece [u \<mapsto> rp]"
  have f: "?f p = rewrite_kind KCss u rp (rewrite_kind KHref u rp (rewrite_kind KSrc u rp p))" for p
    by (simp add: three_kinds)
  have ok: "piece_ok (?f p)" if "piece_ok p" for p
    unfolding f using that h by (simp add: rewrite_kind_ok)
  have tx: "is_Text (?f p) = is_Text p" for p
    unfolding f by (simp add: rewrite_kind_text)
  have rf: "v \<in> set (refs p) \<or> v = rp" if "v \<in> set (refs (?f p))" for v p
    using that unfolding f by (meson refs_rewrite_kind)
  have 1: "list_all piece_ok (map ?f doc)"
    using d(1) ok by (auto simp: list_all_iff)
  have 2: "separated (map ?f doc)"
    using d(2) separated_map [of ?f, OF tx] by simp
  have 3: "v = u' \<or> \<not> takes_for u' v"
    if a3: "u' \<in> fst ` set tbl" "p \<in> set (map ?f doc)" "v \<in> set (refs p)" for u' p v
  proof -
    obtain p0 where p0: "p0 \<in> set doc" "p = ?f p0" using a3(2) by auto
    then have "v \<in> set (refs p0) \<or> v = rp" using rf a3(3) by blast
    then show ?thesis using t [OF a3(1)] p0(1) by blast
  qed
  have 4: "\<forall>u' \<in> fst ` set tbl.
            plain_asset_url u'
            \<and> (\<forall>rp' \<in> snd ` set tbl. \<not> takes_for u' rp')
            \<and> (\<forall>p \<in> set (map ?f doc). \<forall>v \<in> set (refs p). v = u' \<or> \<not> takes_for u' v)"
    using t 3 by blast
  show "rewritable tbl (map ?f doc)"
    unfolding rewritable_def using 1 2 4 r by blast
  show "map_of tbl rp = None"
  proof (rule ccontr)
    assume "map_of tbl rp \<noteq> None"
    then obtain x where "(rp, x) \<in> set tbl" by (auto dest: map_of_SomeD)
    then have "rp \<in> fst ` set tbl" by force
    then have "\<not> takes_for rp rp" using t by blast
    then show False by (simp add: takes_for_refl)
  qed
qed

lemma rewrite_assets_doc:
  assumes p: "new_URL pageUrl = Some parsed"
  shows "rewritable (page_paths parsed as) doc \<Longrightarrow>
         rewrite_assets engine new_URL pageUrl as (render doc) =
           Inr (render (map (rewrite_piece (map_of (page_paths parsed as))) doc))"
proof (induction as arbitrary: doc)
  case Nil
  have "rewrite_piece (\<lambda>x. None) q = q" for q
    by (cases q) simp_all
  then show ?case by (simp add: page_paths_def)
next
  case (Cons a as)
  let ?u = "originalUrl a"
  let ?rp = "getRelativePath (page_file_name (pathname parsed)) (localPath a)"
  let ?tbl = "page_paths parsed as"
  have e: "page_paths parsed (a # as) = (?u, ?rp) # ?tbl"
    by (simp add: page_paths_def)
  note w = Cons.prems [unfolded e]
  have h: "plain_asset_url ?u" "plain_ref ?rp" "CHR ''$'' \<notin> set ?rp" "\<not> takes_for ?u ?rp"
    "list_all piece_ok doc" "separated doc"
    "\<forall>p \<in> set doc. \<forall>v \<in> set (refs p). v = ?u \<or> \<not> takes_for ?u v"
    using w unfolding rewritable_def by simp_all
  have 1: "rewrite_asset engine new_URL pageUrl a (render doc) =
      Inr (render (map (rewrite_piece [?u \<mapsto> ?rp]) doc))"
    using rewrite_asset_doc [where new_URL = new_URL and pageUrl = pageUrl and a = a and rp = ?rp,
        OF p refl h] .
  note t = rewritable_tail [OF w]
  have 2: "rewrite_assets engine new_URL pageUrl as (render (map (rewrite_piece [?u \<mapsto> ?rp]) doc)) =
      Inr (render (map (rewrite_piece (map_of ?tbl)) (map (rewrite_piece [?u \<mapsto> ?rp]) doc)))"
    using Cons.IH [OF t(1)] .
  have 3: "rewrite_piece (map_of ?tbl) (rewrite_piece [?u \<mapsto> ?rp] q) =
      rewrite_piece (map_of ((?u, ?rp) # ?tbl)) q" for q
  proof -
    have "map_of ((?u, ?rp) # ?tbl) = (\<lambda>x. if x = ?u then Some ?rp else map_of ?tbl x)"
      by auto
    then show ?thesis
      using rewrite_piece_stack [where tbl = "map_of ?tbl" and rp = ?rp and u = ?u and p = q, OF t(2)]
      by simp
  qed
  have 4: "rewrite_piece (map_of ?tbl) \<circ> rewrite_piece [?u \<mapsto> ?rp] =
      rewrite_piece (map_of ((?u, ?rp) # ?tbl))"
    by (rule ext) (simp add: 3)
  have 5: "rewrite_assets engine new_URL pageUrl (a # as) (render doc) =
      Inr (render (map (rewrite_piece (map_of ?tbl)) (map (rewrite_piece [?u \<mapsto> ?rp]) doc)))"
    by (simp only: rewrite_assets.simps 1 sum.case 2)
  have 6: "map (rewrite_piece (map_of ?tbl)) (map (rewrite_piece [?u \<mapsto> ?rp]) doc) =
      map (rewrite_piece (map_of ((?u, ?rp) # ?tbl))) doc"
    by (simp only: map_map 4)
  show ?case
    unfolding e by (simp only: 5 6)
qed

lemma processHtml_doc:
  assumes "map_of (pages m) pageUrl = Some pageInfo" "new_URL pageUrl = Some parsed"
    and "replace_first base_tag [] raw = render doc"
    and "rewritable (page_paths parsed (assets pageInfo)) doc"
  shows "processHtml engine new_URL raw pageUrl m =
           Inr (render (map (rewrite_piece (map_of (page_paths parsed (assets pageInfo)))) doc))"
  using assms rewrite_assets_doc [where new_URL = new_URL and pageUrl = pageUrl and engine = engine, OF assms(2,4)]
  by (simp add: processHtml_def)

lemma rewrite_asset_engine:
  "compile_url (originalUrl a) \<noteq> None \<Longrightarrow>
   rewrite_asset e1 new_URL pageUrl a c = rewrite_asset e2 new_URL pageUrl a c"
  by (auto simp: rewrite_asset_def global_replace_def Let_def split: option.splits)

lemma rewrite_assets_engine:
  "list_all (\<lambda>a. compile_url (originalUrl a) \<noteq> None) as \<Longrightarrow>
   rewrite_assets e1 new_URL pageUrl as c = rewrite_assets e2 new_URL pageUrl as c"
proof (induction as arbitrary: c)
  case Nil
  then show ?case by simp
next
  case (Cons a as)
  then have "rewrite_asset e1 new_URL pageUrl a c = rewrite_asset e2 new_URL pageUrl a c"
    using rewrite_asset_engine [of a e1 new_URL pageUrl c e2] by simp
  then show ?case using Cons by (simp split: sum.splits)
qed

lemma processHtml_engine:
  assumes "map_of (pages m) pageUrl = Some pageInfo"
    and "list_all (\<lambda>a. compile_url (originalUrl a) \<noteq> None) (assets pageInfo)"
  shows "processHtml e1 new_URL raw pageUrl m = processHtml e2 new_URL raw pageUrl m"
  using assms rewrite_assets_engine [OF assms(2), of e1 new_URL pageUrl _ e2]
  by (simp add: processHtml_def Let_def)

lemma processHtml_no_record:
  "map_of (pages m) pageUrl = None \<Longrightarrow>
   processHtml engine new_URL raw pageUrl m = Inr (replace_first base_tag [] raw)"
  by (simp add: processHtml_def)

text \<open>
  Claim C2, as the builder does it. The relative path of an asset is its \<open>localPath\<close>
  behind one \<open>../\<close> for every directory between the output root and the page's file:
  none for the root page, the number of segments less one for a page \<open>/s1/.../sn\<close> (so
  none for \<open>/cases\<close>), and the number of segments for \<open>/s1/.../sn/\<close>, whose file is
  \<open>index.html\<close> in that directory. For a page with a record, whose text after the
  removal of the base tag is a list of well-formed pieces, \<open>processHtml\<close> returns the
  same pieces with every reference to a listed asset replaced by the relative path of
  that asset, in \<open>src\<close> and \<open>href\<close> attributes and in \<open>url(...)\<close>, quoted or not; every text
  and every reference to another URL (that of an asset whose download failed, which is
  never listed, among them) is kept. This holds for every regular-expression engine,
  under the conditions that \<open>rewritable\<close> collects.
\<close>

theorem asset_references_rewritten:
  "getRelativePath (page_file_name ''/'') lp = lp
   \<and> (segs \<noteq> [] \<and> (\<forall>s \<in> set segs. clean_segment s) \<longrightarrow>
        getRelativePath (page_file_name (''/'' @ join_with ''/'' segs)) lp = dots (length segs - 1) @ lp
        \<and> getRelativePath (page_file_name (''/'' @ join_with ''/'' segs @ ''/'')) lp
            = dots (length segs) @ lp)
   \<and> (map_of (pages m) pageUrl = Some pageInfo \<and> new_URL pageUrl = Some parsed
        \<and> replace_first base_tag [] raw = render doc
        \<and> rewritable (page_paths parsed (assets pageInfo)) doc
      \<longrightarrow> processHtml engine new_URL raw pageUrl m =
            Inr (render (map (rewrite_piece (map_of (page_paths parsed (assets pageInfo)))) doc)))"
proof (intro conjI impI)
  show "getRelativePath (page_file_name ''/'') lp = lp"
    by (simp add: page_file_name_def getRelativePath_def Let_def split_on_no_sep)
next
  assume a: "segs \<noteq> [] \<and> (\<forall>s \<in> set segs. clean_segment s)"
  then show "getRelativePath (page_file_name (''/'' @ join_with ''/'' segs)) lp = dots (length segs - 1) @ lp"
    using page_file_name_plain [of segs] getRelativePath_join [of segs lp] by simp
  have "segs @ [''index.html''] \<noteq> []" "\<forall>s \<in> set (segs @ [''index.html'']). clean_segment s"
    using a by (simp_all add: clean_segment_def)
  from getRelativePath_join [OF this]
  show "getRelativePath (page_file_name (''/'' @ join_with ''/'' segs @ ''/'')) lp = dots (length segs) @ lp"
    using a page_file_name_slash [of segs] by simp
next
  assume "map_of (pages m) pageUrl = Some pageInfo \<and> new_URL pageUrl = Some parsed
        \<and> replace_first base_tag [] raw = render doc
        \<and> rewritable (page_paths parsed (assets pageInfo)) doc"
  then show "processHtml engine new_URL raw pageUrl m =
            Inr (render (map (rewrite_piece (map_of (page_paths parsed (assets pageInfo)))) doc))"
    using processHtml_doc by blast
qed

theorem asset_references_rewritten_witness:
  \<open>getRelativePath (page_file_name ''/'') ''assets/x.png'' = ''assets/x.png''
   \<and> getRelativePath (page_file_name ''/cases'') ''assets/x.png'' = ''assets/x.png''
   \<and> getRelativePath (page_file_name ''/cases/'') ''assets/x.png'' = ''../assets/x.png''
   \<and> getRelativePath (page_file_name ''/blog/post'') ''assets/x.png'' = ''../assets/x.png''
   \<and> processHtml (\<lambda>source rep s. None) http_url
        ''<base href="/"><img src="https://cdn/x.png"><a href='https://cdn/y.png'>y</a><div style="background:url(https://cdn/x.png)"></div>''
        ''https://apply.agency/cases/'' slash_manifest =
      Inr ''<img src="../assets/x.png"><a href='https://cdn/y.png'>y</a><div style="background:url('../assets/x.png')"></div>''\<close>
proof -
  let ?lp = "''assets/x.png''"
  let ?rp = "''../assets/x.png''"
  let ?raw = \<open>''<base href="/"><img src="https://cdn/x.png"><a href='https://cdn/y.png'>y</a><div style="background:url(https://cdn/x.png)"></div>''\<close>
  let ?url = "''https://apply.agency/cases/''"
  let ?parsed = "\<lparr>hostname = ''apply.agency'', pathname = ''/cases/''\<rparr>"
  let ?rec = "\<lparr>assets = [x_asset], rawHtml = Some ''pages/cases.html'', error = None\<rparr>"
  note depth = asset_references_rewritten [THEN conjunct2, THEN conjunct1, THEN mp]
  note page = asset_references_rewritten [where new_URL = http_url and pageUrl = ?url
      and engine = "\<lambda>source rep s. None" and m = slash_manifest and raw = ?raw,
      THEN conjunct2, THEN conjunct2, THEN mp]
  have 1: "getRelativePath (page_file_name ''/'') ?lp = ?lp"
    by (rule asset_references_rewritten [THEN conjunct1])
  have c1: "[''cases''] \<noteq> [] \<and> (\<forall>s \<in> set [''cases'']. clean_segment s)"
    by (simp add: clean_segment_def)
  have 2: "getRelativePath (page_file_name ''/cases'') ?lp = ?lp"
    using depth [OF c1, THEN conjunct1, of ?lp] by (simp add: dots_def)
  have 3: "getRelativePath (page_file_name ''/cases/'') ?lp = ?rp"
    using depth [OF c1, THEN conjunct2, of ?lp] by (simp add: dots_def)
  have c2: "[''blog'', ''post''] \<noteq> [] \<and> (\<forall>s \<in> set [''blog'', ''post'']. clean_segment s)"
    by (simp add: clean_segment_def)
  have 4: "getRelativePath (page_file_name ''/blog/post'') ?lp = ?rp"
    using depth [OF c2, THEN conjunct1, of ?lp] by (simp add: dots_def)
  have h1: "map_of (pages slash_manifest) ?url = Some ?rec"
    by (simp add: slash_manifest_def)
  have h2: "http_url ?url = Some ?parsed"
    by code_simp
  have h3: "replace_first base_tag [] ?raw = render gallery"
    by code_simp
  have h4: "rewritable (page_paths ?parsed (assets ?rec)) gallery"
    by code_simp
  have h: "map_of (pages slash_manifest) ?url = Some ?rec \<and> http_url ?url = Some ?parsed
      \<and> replace_first base_tag [] ?raw = render gallery
      \<and> rewritable (page_paths ?parsed (assets ?rec)) gallery"
    using h1 h2 h3 h4 by (intro conjI)
  have r: \<open>render (map (rewrite_piece (map_of (page_paths ?parsed (assets ?rec)))) gallery) =
      ''<img src="../assets/x.png"><a href='https://cdn/y.png'>y</a><div style="background:url('../assets/x.png')"></div>''\<close>
    by code_simp
  have 5: \<open>processHtml (\<lambda>source rep s. None) http_url ?raw ?url slash_manifest =
      Inr ''<img src="../assets/x.png"><a href='https://cdn/y.png'>y</a><div style="background:url('../assets/x.png')"></div>''\<close>
    using page [OF h] by (simp only: r)
  show ?thesis
    by (intro conjI) (rule 1 2 3 4 5)+
qed

text \<open>
  The claim as stated fails: the page \<open>/cases\<close> is written to \<open>built_site/cases\<close> and its
  image becomes \<open>assets/x.png\<close>, without \<open>../\<close>; and an occurrence of the URL outside the
  three positions stays in the output.
\<close>

theorem cases_page_gets_no_parent_prefix:
  \<open>buildSite cases_env =
     Some ([Built ''built_site/cases''],
           \<lparr>dirs = [''built_site'', ''built_site/assets''],
            files = [(''built_site/assets/x.png'', ''PNG''),
                     (''built_site/cases'', ''<img src="assets/x.png">'')]\<rparr>)
   \<and> \<not> str_includes ''<img src="assets/x.png">'' ''../assets/x.png''
   \<and> processHtml (\<lambda>source rep s. None) http_url ''<p>https://cdn/x.png</p>''
         ''https://apply.agency/cases'' cases_manifest = Inr ''<p>https://cdn/x.png</p>''
   \<and> str_includes ''<p>https://cdn/x.png</p>'' ''https://cdn/x.png''\<close>
proof -
  have 1: \<open>buildSite cases_env =
     Some ([Built ''built_site/cases''],
           \<lparr>dirs = [''built_site'', ''built_site/assets''],
            files = [(''built_site/assets/x.png'', ''PNG''),
                     (''built_site/cases'', ''<img src="assets/x.png">'')]\<rparr>)\<close>
    by code_simp
  have 2: \<open>\<not> str_includes ''<img src="assets/x.png">'' ''../assets/x.png''\<close>
    by code_simp
  have 3: \<open>processHtml (\<lambda>source rep s. None) http_url ''<p>https://cdn/x.png</p>''
         ''https://apply.agency/cases'' cases_manifest = Inr ''<p>https://cdn/x.png</p>''\<close>
    by code_simp
  have 4: \<open>str_includes ''<p>https://cdn/x.png</p>'' ''https://cdn/x.png''\<close>
    by code_simp
  show ?thesis
    by (intro conjI) (rule 1 2 3 4)+
qed

section \<open>The files that pages are written to\<close>

lemma normalize_no_dotdot:
  "\<forall>s \<in> set xs. s \<noteq> ''..'' \<Longrightarrow>
   normalize_segments a acc xs = rev acc @ filter (\<lambda>s. s \<noteq> [] \<and> s \<noteq> ''.'') xs"
  by (induction xs arbitrary: acc) auto

lemma join_hd:
  "xs \<noteq> [] \<Longrightarrow> hd xs \<noteq> [] \<Longrightarrow> join_with sep xs \<noteq> [] \<and> hd (join_with sep xs) = hd (hd xs)"
  by (cases xs; cases "tl xs") auto

lemma join_last_empty:
  "ys \<noteq> [] \<Longrightarrow> sep \<noteq> [] \<Longrightarrow> last (join_with sep (ys @ [[]])) = last sep"
  by (simp add: join_snoc)

lemma normalize_join:
  assumes ne: "xs \<noteq> []" and sl: "\<forall>s \<in> set xs. CHR ''/'' \<notin> set s" and dd: "\<forall>s \<in> set xs. s \<noteq> ''..''"
    and h: "hd xs \<noteq> []"
    and k: "filter (\<lambda>s. s \<noteq> [] \<and> s \<noteq> ''.'') xs \<noteq> []"
  shows "path_normalize (join_with ''/'' xs) =
           join_with ''/'' (filter (\<lambda>s. s \<noteq> [] \<and> s \<noteq> ''.'') xs) @ (if last xs = [] then ''/'' else [])"
proof -
  let ?J = "join_with ''/'' xs"
  let ?K = "filter (\<lambda>s. s \<noteq> [] \<and> s \<noteq> ''.'') xs"
  have j: "?J \<noteq> []" "hd ?J = hd (hd xs)"
    using join_hd [OF ne h] by simp_all
  have "hd (hd xs) \<in> set (hd xs)" using h by simp
  moreover have "hd xs \<in> set xs" using ne by simp
  ultimately have rel: "hd ?J \<noteq> CHR ''/''"
    using sl j(2) by metis
  have sp: "split_on CHR ''/'' ?J = xs"
    using split_join [OF ne sl] .
  have q: "join_with ''/'' ?K \<noteq> []"
    using join_not_empty [OF k] by simp
  have tr: "(last ?J = CHR ''/'') = (last xs = [])"
  proof (cases "last xs = []")
    case False
    have "last (last xs) \<in> set (last xs)" using False by simp
    moreover have "last xs \<in> set xs" using ne by simp
    ultimately have "last (last xs) \<noteq> CHR ''/''" using sl by metis
    then show ?thesis using last_join [OF ne False, of "''/''"] False by simp
  next
    case True
    then have "butlast xs \<noteq> []" using h ne
      by (metis append_butlast_last_id append_Nil list.sel(1))
    moreover have "xs = butlast xs @ [[]]" using True ne by (metis append_butlast_last_id)
    ultimately have "last ?J = CHR ''/''"
      using join_last_empty [of "butlast xs" "''/''"] by simp
    then show ?thesis using True by simp
  qed
  show ?thesis
    using j(1) rel sp q tr
    by (simp add: path_normalize_def Let_def normalize_no_dotdot [OF dd])
qed

lemma clean_facts:
  assumes "\<forall>s \<in> set segs. clean_segment s"
  shows "\<forall>s \<in> set segs. CHR ''/'' \<notin> set s" "\<forall>s \<in> set segs. s \<noteq> ''..''"
    "filter (\<lambda>s. s \<noteq> [] \<and> s \<noteq> ''.'') segs = segs"
  using assms by (auto simp: clean_segment_def filter_id_conv)

lemma path_join_segments:
  assumes a: "a \<noteq> []" "b \<noteq> []" and e: "a @ ''/'' @ b = join_with ''/'' xs"
    and ne: "xs \<noteq> []" and sl: "\<forall>s \<in> set xs. CHR ''/'' \<notin> set s" and dd: "\<forall>s \<in> set xs. s \<noteq> ''..''"
    and h: "hd xs \<noteq> []"
    and k: "filter (\<lambda>s. s \<noteq> [] \<and> s \<noteq> ''.'') xs = ys" "ys \<noteq> []"
  shows "path_join a b = join_with ''/'' ys @ (if last xs = [] then ''/'' else [])"
proof -
  have "path_join a b = path_normalize (a @ ''/'' @ b)"
    using a by (simp add: path_join_def Let_def)
  also have "\<dots> = path_normalize (join_with ''/'' xs)"
    by (simp only: e)
  also have "\<dots> = join_with ''/'' (filter (\<lambda>s. s \<noteq> [] \<and> s \<noteq> ''.'') xs) @ (if last xs = [] then ''/'' else [])"
    using k by (intro normalize_join [OF ne sl dd h]) simp
  finally show ?thesis by (simp only: k)
qed

lemma join_Cons: "segs \<noteq> [] \<Longrightarrow> join_with sep (x # segs) = x @ sep @ join_with sep segs"
  by (cases segs) simp_all

lemma built_path:
  assumes "segs \<noteq> []" "\<forall>s \<in> set segs. clean_segment s"
  shows "path_join BUILT_DIR (join_with ''/'' segs) = ''built_site/'' @ join_with ''/'' segs"
proof -
  let ?xs = "[''.'', ''built_site''] @ segs"
  have e: "''./built_site'' @ ''/'' @ join_with ''/'' segs = join_with ''/'' ?xs"
    using assms(1) by (cases segs) simp_all
  have l: "last ?xs \<noteq> []" using assms by (auto simp: clean_segment_def)
  have "path_normalize (join_with ''/'' ?xs) =
      join_with ''/'' (filter (\<lambda>s. s \<noteq> [] \<and> s \<noteq> ''.'') ?xs) @ (if last ?xs = [] then ''/'' else [])"
    using clean_facts [OF assms(2)] by (intro normalize_join) auto
  then have "path_normalize (join_with ''/'' ?xs) = join_with ''/'' (''built_site'' # segs)"
    using l clean_facts(3) [OF assms(2)] by simp
  moreover have "join_with ''/'' (''built_site'' # segs) = ''built_site/'' @ join_with ''/'' segs"
    using assms(1) by (cases segs) simp_all
  ultimately show ?thesis
    using clean_join(1) [OF assms] e by (simp add: path_join_def BUILT_DIR_def Let_def)
qed


lemma built_path_root: "path_join BUILT_DIR (page_file_name ''/'') = ''built_site/index.html''"
  by code_simp

lemma built_path_plain:
  assumes "segs \<noteq> []" "\<forall>s \<in> set segs. clean_segment s"
  shows "path_join BUILT_DIR (page_file_name (''/'' @ join_with ''/'' segs)) =
           ''built_site/'' @ join_with ''/'' segs"
  using built_path [OF assms] page_file_name_plain [OF assms] by simp

lemma built_path_slash:
  assumes "segs \<noteq> []" "\<forall>s \<in> set segs. clean_segment s"
  shows "path_join BUILT_DIR (page_file_name (''/'' @ join_with ''/'' segs @ ''/'')) =
           ''built_site/'' @ join_with ''/'' segs @ ''/index.html''"
proof -
  have c: "segs @ [''index.html''] \<noteq> []" "\<forall>s \<in> set (segs @ [''index.html'']). clean_segment s"
    using assms(2) by (simp_all add: clean_segment_def)
  show ?thesis
    using built_path [OF c] page_file_name_slash [OF assms] join_snoc [OF assms(1), of "''/''" "''index.html''"]
    by simp
qed

lemma basename_last:
  assumes "seg \<noteq> []" "CHR ''/'' \<notin> set seg"
  shows "basename_part (x @ ''/'' @ seg) = seg" "basename_part seg = seg"
proof -
  have h: "hd (rev seg) \<noteq> CHR ''/''"
    using assms by (metis hd_rev last_in_set)
  have r: "rev seg \<noteq> []" using assms(1) by simp
  have d: "dropWhile (\<lambda>c. c = CHR ''/'') (rev seg @ ys) = rev seg @ ys" for ys
    using h r by (cases "rev seg") auto
  have t: "takeWhile (\<lambda>c. c \<noteq> CHR ''/'') (rev seg @ CHR ''/'' # ys) = rev seg" for ys
    using assms(2) by (auto simp: takeWhile_tail)
  have t2: "takeWhile (\<lambda>c. c \<noteq> CHR ''/'') (rev seg) = rev seg"
    using assms(2) by auto
  show "basename_part (x @ ''/'' @ seg) = seg"
    using d [of "CHR ''/'' # rev x"] by (simp add: basename_part_def t)
  show "basename_part seg = seg"
    using d [of "[]"] by (simp add: basename_part_def t2)
qed

lemma extname_last:
  assumes "seg \<noteq> []" "CHR ''/'' \<notin> set seg"
  shows "path_extname (x @ ''/'' @ seg) = path_extname seg"
  using basename_last [OF assms] by (simp add: path_extname_def)

lemma join_split_last:
  "segs \<noteq> [] \<Longrightarrow> \<exists>x. ''downloaded_site/'' @ join_with ''/'' segs = x @ ''/'' @ last segs"
proof -
  assume ne: "segs \<noteq> []"
  show ?thesis
  proof (cases "butlast segs = []")
    case True
    then have "segs = [last segs]" using ne by (metis append_butlast_last_id append_Nil)
    then have "join_with ''/'' segs = last segs" by (metis join_with.simps(2))
    then have "''downloaded_site/'' @ join_with ''/'' segs = ''downloaded_site'' @ ''/'' @ last segs"
      by simp
    then show ?thesis by blast
  next
    case False
    have "join_with ''/'' (butlast segs @ [last segs]) = join_with ''/'' (butlast segs) @ ''/'' @ last segs"
      using join_snoc [OF False] .
    then have "join_with ''/'' segs = join_with ''/'' (butlast segs) @ ''/'' @ last segs"
      using ne by simp
    then have "''downloaded_site/'' @ join_with ''/'' segs =
        (''downloaded_site/'' @ join_with ''/'' (butlast segs)) @ ''/'' @ last segs"
      by simp
    then show ?thesis by blast
  qed
qed

lemma crawler_join_plain:
  assumes "segs \<noteq> []" "\<forall>s \<in> set segs. clean_segment s"
  shows "path_join (outputDir config) (''/'' @ join_with ''/'' segs) = ''downloaded_site/'' @ join_with ''/'' segs"
proof -
  let ?xs = "[''.'', ''downloaded_site'', []] @ segs"
  have e: "''./downloaded_site'' @ ''/'' @ (''/'' @ join_with ''/'' segs) = join_with ''/'' ?xs"
    using assms(1) by (cases segs) simp_all
  have l: "last ?xs \<noteq> []" using assms by (auto simp: clean_segment_def)
  have f: "filter (\<lambda>s. s \<noteq> [] \<and> s \<noteq> ''.'') ?xs = ''downloaded_site'' # segs"
    using clean_facts(3) [OF assms(2)] by simp
  have "path_join ''./downloaded_site'' (''/'' @ join_with ''/'' segs) =
      join_with ''/'' (''downloaded_site'' # segs) @ (if last ?xs = [] then ''/'' else [])"
    using clean_facts(1,2) [OF assms(2)] by (intro path_join_segments [OF _ _ e _ _ _ _ f]) auto
  then show ?thesis
    using l by (simp add: config_def join_Cons [OF assms(1)])
qed
lemma crawler_join_slash:
  assumes "segs \<noteq> []" "\<forall>s \<in> set segs. clean_segment s"
  shows "path_join (outputDir config) (''/'' @ join_with ''/'' segs @ ''/'') =
           ''downloaded_site/'' @ join_with ''/'' segs @ ''/''"
proof -
  let ?xs = "([''.'', ''downloaded_site'', []] @ segs) @ [[]]"
  have "join_with ''/'' ?xs = join_with ''/'' ([''.'', ''downloaded_site'', []] @ segs) @ ''/'' @ []"
    by (rule join_snoc) simp
  moreover have "join_with ''/'' ([''.'', ''downloaded_site'', []] @ segs) =
      ''./downloaded_site'' @ ''/'' @ ''/'' @ join_with ''/'' segs"
    using assms(1) by (cases segs) simp_all
  ultimately have e: "''./downloaded_site'' @ ''/'' @ (''/'' @ join_with ''/'' segs @ ''/'') = join_with ''/'' ?xs"
    by simp
  have f: "filter (\<lambda>s. s \<noteq> [] \<and> s \<noteq> ''.'') ?xs = ''downloaded_site'' # segs"
    using clean_facts(3) [OF assms(2)] by simp
  have "path_join ''./downloaded_site'' (''/'' @ join_with ''/'' segs @ ''/'') =
      join_with ''/'' (''downloaded_site'' # segs) @ (if last ?xs = [] then ''/'' else [])"
    using clean_facts(1,2) [OF assms(2)] by (intro path_join_segments [OF _ _ e _ _ _ _ f]) auto
  then show ?thesis
    by (simp add: config_def join_Cons [OF assms(1)])
qed
lemma crawler_join_index:
  assumes "segs \<noteq> []" "\<forall>s \<in> set segs. clean_segment s"
  shows "path_join (''downloaded_site/'' @ join_with ''/'' segs @ ''/'') ''index.html'' =
           ''downloaded_site/'' @ join_with ''/'' segs @ ''/index.html''"
proof -
  let ?ys = "(''downloaded_site'' # segs) @ [[]]"
  let ?xs = "?ys @ [''index.html'']"
  have j: "join_with ''/'' (''downloaded_site'' # segs) = ''downloaded_site/'' @ join_with ''/'' segs"
    using assms(1) by (simp add: join_Cons)
  have 1: "join_with ''/'' ?xs = join_with ''/'' ?ys @ ''/'' @ ''index.html''"
    by (rule join_snoc) simp
  have 2: "join_with ''/'' ?ys = join_with ''/'' (''downloaded_site'' # segs) @ ''/'' @ []"
    by (rule join_snoc) simp
  have e: "(''downloaded_site/'' @ join_with ''/'' segs @ ''/'') @ ''/'' @ ''index.html'' = join_with ''/'' ?xs"
    by (simp only: 1 2 j) simp
  have f: "filter (\<lambda>s. s \<noteq> [] \<and> s \<noteq> ''.'') ?xs = (''downloaded_site'' # segs) @ [''index.html'']"
    using clean_facts(3) [OF assms(2)] by simp
  have 3: "join_with ''/'' ((''downloaded_site'' # segs) @ [''index.html'']) =
      join_with ''/'' (''downloaded_site'' # segs) @ ''/'' @ ''index.html''"
    by (rule join_snoc) simp
  have "path_join (''downloaded_site/'' @ join_with ''/'' segs @ ''/'') ''index.html'' =
      join_with ''/'' ((''downloaded_site'' # segs) @ [''index.html'']) @ (if last ?xs = [] then ''/'' else [])"
    using clean_facts(1,2) [OF assms(2)] by (intro path_join_segments [OF _ _ e _ _ _ _ f]) auto
  then show ?thesis
    by (simp only: 3 j) simp
qed
lemma crawler_file_plain:
  assumes "segs \<noteq> []" "\<forall>s \<in> set segs. clean_segment s"
  shows "crawler_page_file config \<lparr>hostname = h, pathname = ''/'' @ join_with ''/'' segs\<rparr> =
           ''downloaded_site/'' @ join_with ''/'' segs @ (if path_extname (last segs) = [] then ''.html'' else [])"
proof -
  let ?f = "''downloaded_site/'' @ join_with ''/'' segs"
  have l: "last segs \<noteq> []" "CHR ''/'' \<notin> set (last segs)"
    using assms by (auto simp: clean_segment_def)
  obtain x where x: "?f = x @ ''/'' @ last segs"
    using join_split_last [OF assms(1)] by blast
  have ext: "path_extname ?f = path_extname (last segs)"
    unfolding x by (rule extname_last [OF l])
  have "last ?f = last (join_with ''/'' segs)"
    using clean_join(1) [OF assms] by simp
  then have ns: "\<not> endsWith ?f ''/''"
    using clean_join(2) [OF assms] by (simp add: endsWith_slash)
  show ?thesis
    using crawler_join_plain [OF assms] ns ext
    by (simp add: crawler_page_file_def Let_def)
qed

lemma crawler_file_slash:
  assumes "segs \<noteq> []" "\<forall>s \<in> set segs. clean_segment s"
  shows "crawler_page_file config \<lparr>hostname = h, pathname = ''/'' @ join_with ''/'' segs @ ''/''\<rparr> =
           ''downloaded_site/'' @ join_with ''/'' segs @ ''/index.html''"
proof -
  have "endsWith (''downloaded_site/'' @ join_with ''/'' segs @ ''/'') ''/''"
    by (simp add: endsWith_slash)
  then show ?thesis
    using crawler_join_slash [OF assms] crawler_join_index [OF assms]
    by (simp add: crawler_page_file_def Let_def)
qed

lemma crawler_file_root:
  "crawler_page_file config \<lparr>hostname = h, pathname = ''/''\<rparr> = ''downloaded_site/index.html''"
proof -
  have "path_join (outputDir config) ''/'' = ''downloaded_site/''"
    by code_simp
  moreover have "endsWith ''downloaded_site/'' ''/''" by code_simp
  moreover have "path_join ''downloaded_site/'' ''index.html'' = ''downloaded_site/index.html''"
    by code_simp
  ultimately show ?thesis
    by (simp add: crawler_page_file_def Let_def)
qed

lemma files_update: "map_of (AList.update k v al) q = (if q = k then Some v else map_of al q)"
  by (simp add: update_conv')

lemma build_page_Built:
  assumes "build_page env m url pageInfo fs = (Built p, fs')"
  shows "\<exists>parsed rawName raw html.
           rawHtml pageInfo = Some rawName
           \<and> read_file env (path_join INPUT_DIR rawName) = Some raw
           \<and> processHtml (b_engine env) (b_new_URL env) raw url m = Inr html
           \<and> b_new_URL env url = Some parsed
           \<and> p = path_join BUILT_DIR (page_file_name (pathname parsed))
           \<and> map_of (files fs') p = Some html
           \<and> (\<forall>q. q \<noteq> p \<longrightarrow> map_of (files fs') q = map_of (files fs) q)"
  using assms
  by (auto simp: build_page_def Let_def mkdir_p_def write_file_def files_update
      split: option.splits sum.splits if_splits)

lemma build_page_error:
  assumes "build_page env m url pageInfo fs = (PageError e, fs')"
  shows "files fs' = files fs"
  using assms
  by (auto simp: build_page_def Let_def mkdir_p_def write_file_def
      split: option.splits sum.splits if_splits)

lemma save_page_event:
  assumes "save_page cfg cenv u st = Some st'"
  shows "\<exists>urlObj. cr_new_URL cenv u = Some urlObj
           \<and> events st' = events st @ [FileWritten (crawler_page_file cfg urlObj)]"
  using assms by (auto simp: save_page_def split: option.splits if_splits)

text \<open>
  Claim C7, as the two programs do it. \<open>build-site.js\<close>: a page that is built is written
  to the file named after the pathname of its URL under \<open>built_site\<close>, with the processed
  HTML as content, and no other file changes; a page that fails changes no file. The
  file is \<open>built_site/index.html\<close> for the root, the path itself for \<open>/s1/.../sn\<close>, with no
  \<open>.html\<close> appended, and \<open>index.html\<close> in the directory for \<open>/s1/.../sn/\<close>. \<open>crawler.js\<close>
  saves a page to the path under \<open>downloaded_site\<close>, with \<open>.html\<close> appended when the last
  segment has no extension, and to \<open>index.html\<close> in the directory when the path ends in
  a slash; the trace records the write to that file.
\<close>

theorem page_output_paths:
  "(build_page env m url pageInfo fs = (Built p, fs') \<longrightarrow>
      (\<exists>parsed rawName raw html.
          rawHtml pageInfo = Some rawName
          \<and> read_file env (path_join INPUT_DIR rawName) = Some raw
          \<and> processHtml (b_engine env) (b_new_URL env) raw url m = Inr html
          \<and> b_new_URL env url = Some parsed
          \<and> p = path_join BUILT_DIR (page_file_name (pathname parsed))
          \<and> map_of (files fs') p = Some html
          \<and> (\<forall>q. q \<noteq> p \<longrightarrow> map_of (files fs') q = map_of (files fs) q)))
   \<and> (build_page env m url pageInfo fs = (PageError e, fs') \<longrightarrow> files fs' = files fs)
   \<and> path_join BUILT_DIR (page_file_name ''/'') = ''built_site/index.html''
   \<and> crawler_page_file config \<lparr>hostname = h, pathname = ''/''\<rparr> = ''downloaded_site/index.html''
   \<and> (segs \<noteq> [] \<and> (\<forall>s \<in> set segs. clean_segment s) \<longrightarrow>
        path_join BUILT_DIR (page_file_name (''/'' @ join_with ''/'' segs))
          = ''built_site/'' @ join_with ''/'' segs
        \<and> path_join BUILT_DIR (page_file_name (''/'' @ join_with ''/'' segs @ ''/''))
          = ''built_site/'' @ join_with ''/'' segs @ ''/index.html''
        \<and> crawler_page_file config \<lparr>hostname = h, pathname = ''/'' @ join_with ''/'' segs\<rparr>
          = ''downloaded_site/'' @ join_with ''/'' segs
              @ (if path_extname (last segs) = [] then ''.html'' else [])
        \<and> crawler_page_file config \<lparr>hostname = h, pathname = ''/'' @ join_with ''/'' segs @ ''/''\<rparr>
          = ''downloaded_site/'' @ join_with ''/'' segs @ ''/index.html'')
   \<and> (save_page cfg cenv u st = Some st' \<longrightarrow>
        (\<exists>urlObj. cr_new_URL cenv u = Some urlObj
           \<and> events st' = events st @ [FileWritten (crawler_page_file cfg urlObj)]))"
proof (intro conjI impI)
  assume "build_page env m url pageInfo fs = (Built p, fs')"
  then show "\<exists>parsed rawName raw html.
          rawHtml pageInfo = Some rawName
          \<and> read_file env (path_join INPUT_DIR rawName) = Some raw
          \<and> processHtml (b_engine env) (b_new_URL env) raw url m = Inr html
          \<and> b_new_URL env url = Some parsed
          \<and> p = path_join BUILT_DIR (page_file_name (pathname parsed))
          \<and> map_of (files fs') p = Some html
          \<and> (\<forall>q. q \<noteq> p \<longrightarrow> map_of (files fs') q = map_of (files fs) q)"
    by (rule build_page_Built)
next
  assume "build_page env m url pageInfo fs = (PageError e, fs')"
  then show "files fs' = files fs" by (rule build_page_error)
next
  show "path_join BUILT_DIR (page_file_name ''/'') = ''built_site/index.html''"
    by (rule built_path_root)
next
  show "crawler_page_file config \<lparr>hostname = h, pathname = ''/''\<rparr> = ''downloaded_site/index.html''"
    by (rule crawler_file_root)
next
  assume a: "segs \<noteq> [] \<and> (\<forall>s \<in> set segs. clean_segment s)"
  then have s: "segs \<noteq> []" "\<forall>s \<in> set segs. clean_segment s" by simp_all
  show "path_join BUILT_DIR (page_file_name (''/'' @ join_with ''/'' segs))
          = ''built_site/'' @ join_with ''/'' segs"
    by (rule built_path_plain [OF s])
  show "path_join BUILT_DIR (page_file_name (''/'' @ join_with ''/'' segs @ ''/''))
          = ''built_site/'' @ join_with ''/'' segs @ ''/index.html''"
    by (rule built_path_slash [OF s])
  show "crawler_page_file config \<lparr>hostname = h, pathname = ''/'' @ join_with ''/'' segs\<rparr>
          = ''downloaded_site/'' @ join_with ''/'' segs
              @ (if path_extname (last segs) = [] then ''.html'' else [])"
    by (rule crawler_file_plain [OF s])
  show "crawler_page_file config \<lparr>hostname = h, pathname = ''/'' @ join_with ''/'' segs @ ''/''\<rparr>
          = ''downloaded_site/'' @ join_with ''/'' segs @ ''/index.html''"
    by (rule crawler_file_slash [OF s])
next
  assume "save_page cfg cenv u st = Some st'"
  then show "\<exists>urlObj. cr_new_URL cenv u = Some urlObj
           \<and> events st' = events st @ [FileWritten (crawler_page_file cfg urlObj)]"
    by (rule save_page_event)
qed

lemma cases_build:
  \<open>build_page cases_env cases_manifest ''https://apply.agency/cases'' cases_record fresh_output =
     (Built ''built_site/cases'',
      \<lparr>dirs = [''built_site'', ''built_site/assets''],
       files = [(''built_site/cases'', ''<img src="assets/x.png">'')]\<rparr>)\<close>
  by code_simp

theorem page_output_paths_witness:
  \<open>build_page cases_env cases_manifest ''https://apply.agency/cases'' cases_record fresh_output =
     (Built ''built_site/cases'',
      \<lparr>dirs = [''built_site'', ''built_site/assets''],
       files = [(''built_site/cases'', ''<img src="assets/x.png">'')]\<rparr>)
   \<and> (\<exists>parsed. http_url ''https://apply.agency/cases'' = Some parsed
        \<and> ''built_site/cases'' = path_join BUILT_DIR (page_file_name (pathname parsed)))
   \<and> path_join BUILT_DIR (page_file_name ''/blog/post'') = ''built_site/blog/post''
   \<and> path_join BUILT_DIR (page_file_name ''/blog/post/'') = ''built_site/blog/post/index.html''
   \<and> crawler_page_file config \<lparr>hostname = ''apply.agency'', pathname = ''/blog/post''\<rparr>
       = ''downloaded_site/blog/post.html''
   \<and> crawler_page_file config \<lparr>hostname = ''apply.agency'', pathname = ''/blog/post/''\<rparr>
       = ''downloaded_site/blog/post/index.html''
   \<and> crawler_page_file config \<lparr>hostname = ''apply.agency'', pathname = ''/css/site.css''\<rparr>
       = ''downloaded_site/css/site.css''
   \<and> (\<exists>urlObj. http_url page_a = Some urlObj
        \<and> events (the (save_page config cr_online page_a initial_state))
            = [FileWritten (crawler_page_file config urlObj)])\<close>
proof -
  let ?h = "''apply.agency''"
  note built = page_output_paths [where env = cases_env and m = cases_manifest
      and url = "''https://apply.agency/cases''" and pageInfo = cases_record and fs = fresh_output,
      THEN conjunct1, THEN mp, OF cases_build]
  note segs = page_output_paths [THEN conjunct2, THEN conjunct2, THEN conjunct2, THEN conjunct2,
      THEN conjunct1, THEN mp]
  note saved = page_output_paths [where cfg = config and cenv = cr_online and u = page_a
      and st = initial_state,
      THEN conjunct2, THEN conjunct2, THEN conjunct2, THEN conjunct2, THEN conjunct2, THEN mp]
  have e: "b_new_URL cases_env = http_url"
    by (simp add: cases_env_def)
  have 2: "\<exists>parsed. http_url ''https://apply.agency/cases'' = Some parsed
        \<and> ''built_site/cases'' = path_join BUILT_DIR (page_file_name (pathname parsed))"
    using built unfolding e by blast
  have c: "[''blog'', ''post''] \<noteq> [] \<and> (\<forall>s \<in> set [''blog'', ''post'']. clean_segment s)"
    by (simp add: clean_segment_def)
  have x: "path_extname ''post'' = []" "path_extname ''site.css'' = ''.css''"
    by code_simp+
  have 3: "path_join BUILT_DIR (page_file_name ''/blog/post'') = ''built_site/blog/post''"
    using segs [OF c, THEN conjunct1] by simp
  have 4: "path_join BUILT_DIR (page_file_name ''/blog/post/'') = ''built_site/blog/post/index.html''"
    using segs [OF c, THEN conjunct2, THEN conjunct1] by simp
  have 5: "crawler_page_file config \<lparr>hostname = ?h, pathname = ''/blog/post''\<rparr>
       = ''downloaded_site/blog/post.html''"
    using segs [OF c, THEN conjunct2, THEN conjunct2, THEN conjunct1, of ?h] x by simp
  have 6: "crawler_page_file config \<lparr>hostname = ?h, pathname = ''/blog/post/''\<rparr>
       = ''downloaded_site/blog/post/index.html''"
    using segs [OF c, THEN conjunct2, THEN conjunct2, THEN conjunct2, of ?h] by simp
  have c': "[''css'', ''site.css''] \<noteq> [] \<and> (\<forall>s \<in> set [''css'', ''site.css'']. clean_segment s)"
    by (simp add: clean_segment_def)
  have 7: "crawler_page_file config \<lparr>hostname = ?h, pathname = ''/css/site.css''\<rparr>
       = ''downloaded_site/css/site.css''"
    using segs [OF c', THEN conjunct2, THEN conjunct2, THEN conjunct1, of ?h] x by simp
  have s: "save_page config cr_online page_a initial_state \<noteq> None"
    unfolding page_a_def by code_simp
  then obtain st' where st': "save_page config cr_online page_a initial_state = Some st'"
    by blast
  have n: "cr_new_URL cr_online = http_url" "events initial_state = []"
    by (simp_all add: cr_online_def initial_state_def)
  have 8: "\<exists>urlObj. http_url page_a = Some urlObj
        \<and> events (the (save_page config cr_online page_a initial_state))
            = [FileWritten (crawler_page_file config urlObj)]"
    using saved [OF st'] st' n by simp
  show ?thesis
    using cases_build 2 3 4 5 6 7 8 by (intro conjI)
qed

text \<open>
  The claim as stated fails for \<open>build-site.js\<close>: the page \<open>/cases\<close>, whose path has no
  extension, is written to \<open>built_site/cases\<close>; no \<open>.html\<close> is appended.
\<close>

theorem builder_appends_no_html:
  \<open>fst (build_page cases_env cases_manifest ''https://apply.agency/cases'' cases_record fresh_output)
     = Built ''built_site/cases''
   \<and> http_url ''https://apply.agency/cases'' = Some \<lparr>hostname = ''apply.agency'', pathname = ''/cases''\<rparr>
   \<and> path_extname ''/cases'' = []
   \<and> \<not> endsWith ''built_site/cases'' ''.html''\<close>
proof -
  have 1: \<open>fst (build_page cases_env cases_manifest ''https://apply.agency/cases'' cases_record fresh_output)
     = Built ''built_site/cases''\<close>
    by (simp add: cases_build)
  have 2: "http_url ''https://apply.agency/cases'' = Some \<lparr>hostname = ''apply.agency'', pathname = ''/cases''\<rparr>"
    by code_simp
  have 3: "path_extname ''/cases'' = []"
    by code_simp
  have 4: "\<not> endsWith ''built_site/cases'' ''.html''"
    by code_simp
  show ?thesis
    by (intro conjI) (rule 1 2 3 4)+
qed

section \<open>The base tag\<close>

text \<open>
  Claim C10 on two inputs. On a page that starts with a \<open>basefont\<close> tag, the text that
  \<open>processHtml\<close> removes is that tag, and the base tag behind it stays. On the page
  \<open>/cases\<close>, whose record lists the asset \<open>https://cdn/x.png\<close>, the attribute
  \<open>src="https://cdn/xZpng"\<close>, which is no occurrence of that URL, is rewritten too.
\<close>

theorem basefont_removed_base_tag_kept:
  \<open>processHtml engine http_url ''<basefont size="3"><base href="/">''
      ''https://apply.agency/other'' cases_manifest = Inr ''<base href="/">''
   \<and> processHtml engine http_url ''<img src="https://cdn/xZpng">''
      ''https://apply.agency/cases'' cases_manifest = Inr ''<img src="assets/x.png">''\<close>
proof -
  have a: "map_of (pages cases_manifest) ''https://apply.agency/other'' = None"
    by (simp add: cases_manifest_def)
  have b: \<open>replace_first base_tag [] ''<basefont size="3"><base href="/">'' = ''<base href="/">''\<close>
    by code_simp
  have 1: \<open>processHtml engine http_url ''<basefont size="3"><base href="/">''
      ''https://apply.agency/other'' cases_manifest = Inr ''<base href="/">''\<close>
    using processHtml_no_record [OF a, of engine http_url] by (simp only: b)
  have c: "map_of (pages cases_manifest) ''https://apply.agency/cases'' = Some cases_record"
    by (simp add: cases_manifest_def cases_record_def)
  have d: "list_all (\<lambda>a. compile_url (originalUrl a) \<noteq> None) (assets cases_record)"
    by code_simp
  have e: \<open>processHtml (\<lambda>source rep s. None) http_url ''<img src="https://cdn/xZpng">''
      ''https://apply.agency/cases'' cases_manifest = Inr ''<img src="assets/x.png">''\<close>
    by code_simp
  have 2: \<open>processHtml engine http_url ''<img src="https://cdn/xZpng">''
      ''https://apply.agency/cases'' cases_manifest = Inr ''<img src="assets/x.png">''\<close>
    using processHtml_engine [OF c d, of engine http_url _ "\<lambda>source rep s. None"] e by simp
  show ?thesis
    by (intro conjI) (rule 1 2)+
qed

end
